theory Spec2Isabelle
  imports Main "HOL-Library.Word"
begin

unbundle bit_operations_syntax

section \<open>Instruction set: op codes and field widths\<close>

text \<open>
  The \<open>OpCode\<close> enumeration of \<open>payload_executor.py\<close> with its integer values, and the
  width constants of the \<open>Decoder\<close> class.
\<close>

datatype OpCode = NOOP | LOOP | ACT | PRE | REF | ZQC | READ

fun op_value :: "OpCode \<Rightarrow> int" where
  "op_value NOOP = 0"
| "op_value LOOP = 7"
| "op_value ACT = 4"
| "op_value PRE = 5"
| "op_value REF = 6"
| "op_value ZQC = 1"
| "op_value READ = 2"

definition INSTRUCTION :: nat where "INSTRUCTION = 32"
definition OP_CODE :: nat where "OP_CODE = 3"
definition TIMESLICE :: nat where "TIMESLICE = 5"
definition ADDRESS :: nat where "ADDRESS = 24"
definition TIMESLICE_NOOP :: nat where "TIMESLICE_NOOP = TIMESLICE + ADDRESS"
definition LOOP_COUNT :: nat where "LOOP_COUNT = 12"
definition LOOP_JUMP :: nat where "LOOP_JUMP = 17"

lemmas width_defs =
  INSTRUCTION_def OP_CODE_def TIMESLICE_def ADDRESS_def TIMESLICE_NOOP_def
  LOOP_COUNT_def LOOP_JUMP_def

section \<open>Encoder\<close>

text \<open>
  Python integers are unbounded, so every field value is an \<open>int\<close>. The keyword
  arguments read by \<open>Encoder.Instruction.__init__\<close> are \<open>count\<close>, \<open>jump\<close>,
  \<open>timeslice\<close> and \<open>address\<close>; an absent keyword is \<open>None\<close>. Reading an absent
  keyword with \<open>kwargs["k"]\<close> raises \<open>KeyError\<close>; a failed \<open>assert\<close> raises
  \<open>AssertionError\<close>.
\<close>

datatype error = AssertionError | KeyError

record kwargs =
  kw_count :: "int option"
  kw_jump :: "int option"
  kw_timeslice :: "int option"
  kw_address :: "int option"

type_synonym parts = "(nat \<times> int) list"

text \<open>
  An \<open>Instruction\<close> object: \<open>_parts\<close> is the list of (width, value) pairs of the base
  word; \<open>_noops\<close> is only set (\<open>hasattr\<close>) when the requested timeslice differs from the
  base timeslice.
\<close>

record Instruction =
  i_op_code :: OpCode
  i_parts :: parts
  i_noops :: "parts list option"

text \<open>
  The loop \<open>for i in range(0, remaining, Decoder.TIMESLICE_NOOP - 1)\<close> that appends one
  NOOP per step, each waiting \<open>min(remaining - i, Decoder.TIMESLICE_NOOP - 1)\<close>.
\<close>

function noops_loop :: "int \<Rightarrow> int \<Rightarrow> parts list" where
  "noops_loop i remaining =
     (if i < remaining
      then [(OP_CODE, op_value NOOP),
            (TIMESLICE_NOOP, min (remaining - i) (int TIMESLICE_NOOP - 1))]
           # noops_loop (i + (int TIMESLICE_NOOP - 1)) remaining
      else [])"
  by pat_completeness auto
termination
  by (relation "measure (\<lambda>(i, remaining). nat (remaining - i))")
     (auto simp: width_defs)

declare noops_loop.simps [simp del]

definition Instruction_init :: "OpCode \<Rightarrow> kwargs \<Rightarrow> error + Instruction" where
  "Instruction_init op kw =
     (if op = LOOP then
        (case kw_count kw of
           None \<Rightarrow> Inl KeyError
         | Some count \<Rightarrow>
             if \<not> count < 2 ^ LOOP_COUNT then Inl AssertionError
             else (case kw_jump kw of
                     None \<Rightarrow> Inl KeyError
                   | Some jump \<Rightarrow>
                       Inr \<lparr>i_op_code = op,
                            i_parts = [(OP_CODE, op_value op), (LOOP_COUNT, count),
                                       (LOOP_JUMP, jump)],
                            i_noops = None\<rparr>))
      else if op = NOOP then
        (case kw_timeslice kw of
           None \<Rightarrow> Inl KeyError
         | Some timeslice \<Rightarrow>
             if \<not> timeslice < 2 ^ TIMESLICE_NOOP then Inl AssertionError
             else Inr \<lparr>i_op_code = op,
                       i_parts = [(OP_CODE, op_value op), (TIMESLICE_NOOP, timeslice)],
                       i_noops = None\<rparr>)
      else
        (case kw_timeslice kw of
           None \<Rightarrow> Inl KeyError
         | Some timeslice \<Rightarrow>
             if \<not> timeslice \<noteq> 0 then Inl AssertionError
             else if \<not> (kw_address kw \<noteq> None \<or> op \<in> set [REF]) then Inl AssertionError
             else
               let base_timeslice = max (timeslice AND (2 ^ TIMESLICE - 1)) 1
               in Inr \<lparr>i_op_code = op,
                       i_parts = [(OP_CODE, op_value op), (TIMESLICE, base_timeslice),
                                  (ADDRESS, case kw_address kw of None \<Rightarrow> 0 | Some a \<Rightarrow> a)],
                       i_noops =
                         (if base_timeslice \<noteq> timeslice
                          then Some (noops_loop 0 (timeslice - base_timeslice))
                          else None)\<rparr>))"

text \<open>
  The inner loop of \<open>encode_spec\<close>: \<open>instr |= (val & mask) << n; n += width\<close>, started at
  \<open>instr = 0\<close>, \<open>n = 0\<close>.
\<close>

fun pack :: "parts \<Rightarrow> int \<Rightarrow> nat \<Rightarrow> int" where
  "pack [] instr n = instr"
| "pack ((width, val) # ps) instr n =
     pack ps (instr OR push_bit n (val AND (2 ^ width - 1))) (n + width)"

definition encode_spec :: "Instruction \<Rightarrow> int list" where
  "encode_spec spec =
     map (\<lambda>p. pack p 0 0)
       (i_parts spec # (case i_noops spec of None \<Rightarrow> [] | Some ns \<Rightarrow> ns))"

definition encode :: "OpCode \<Rightarrow> kwargs \<Rightarrow> error + int list" where
  "encode op kw =
     (case Instruction_init op kw of Inl e \<Rightarrow> Inl e | Inr spec \<Rightarrow> Inr (encode_spec spec))"

definition encode_payload :: "Instruction list \<Rightarrow> int list" where
  "encode_payload payload = concat (map encode_spec payload)"

section \<open>Decoder\<close>

text \<open>
  The decoder is combinational over the 32-bit instruction register. Slices
  \<open>instruction[a:b]\<close> are \<open>drop_bit\<close> followed by a truncating cast to the signal's width.
\<close>

record decoded =
  op_code :: "3 word"
  timeslice :: "29 word"
  address :: "24 word"
  loop_count :: "12 word"
  loop_jump :: "17 word"
  stop :: bool
  cas :: bool
  ras :: bool
  we :: bool

definition Decoder :: "32 word \<Rightarrow> decoded" where
  "Decoder instruction =
     (let tail = drop_bit OP_CODE instruction;
          op = (ucast instruction :: 3 word);
          ts = (if op = word_of_int (op_value NOOP)
                then (ucast tail :: 29 word)
                else ucast (take_bit TIMESLICE tail))
      in \<lparr>op_code = op,
          timeslice = ts,
          address = ucast (drop_bit TIMESLICE tail),
          loop_count = ucast tail,
          loop_jump = ucast (drop_bit LOOP_COUNT tail),
          stop = (op = word_of_int (op_value NOOP) \<and> ts = 0),
          cas = bit op 1,
          ras = bit op 2,
          we = bit op 0\<rparr>)"

text \<open>The address sub-fields, for a configuration \<open>rankbits\<close>, \<open>bankbits\<close>.\<close>

definition dfi_rank :: "nat \<Rightarrow> decoded \<Rightarrow> nat option" where
  "dfi_rank rankbits d =
     (if rankbits \<noteq> 0 then Some (take_bit rankbits (unat (address d))) else None)"

definition dfi_bank :: "nat \<Rightarrow> nat \<Rightarrow> decoded \<Rightarrow> nat" where
  "dfi_bank rankbits bankbits d = take_bit bankbits (drop_bit rankbits (unat (address d)))"

definition dfi_address :: "nat \<Rightarrow> nat \<Rightarrow> nat \<Rightarrow> nat \<Rightarrow> decoded \<Rightarrow> nat" where
  "dfi_address rankbits bankbits rowbits colbits d =
     take_bit (max rowbits colbits) (drop_bit (rankbits + bankbits) (unat (address d)))"

section \<open>Encoded durations\<close>

text \<open>
  The duration a word stands for once it is in payload memory: a DFI word lasts its decoded
  timeslice, with 0 treated as 1; a trailing NOOP word lasts its decoded 29-bit timeslice.
\<close>

definition dfi_word_duration :: "int \<Rightarrow> int" where
  "dfi_word_duration w =
     (let t = uint (timeslice (Decoder (word_of_int w))) in if t = 0 then 1 else t)"

definition noop_word_duration :: "int \<Rightarrow> int" where
  "noop_word_duration w = uint (timeslice (Decoder (word_of_int w)))"

section \<open>Fetcher and executor state machine\<close>

text \<open>
  One clock cycle of \<open>PayloadExecutor\<close> together with its \<open>Fetcher\<close>, the instruction
  register and the synchronous read port of the payload memory. The registers are the
  fields of the record; the combinational signals are functions of the registers. The
  address signals are words as wide as \<open>mem_addr\<close> (the record's type parameter); the
  payload memory, read-only during execution, is a function from addresses to words.
  The status counters \<open>exec_start\<close>, \<open>exec_stop\<close> and \<open>cycle_counter\<close> are read by no
  other signal and are left out.
\<close>

datatype fsm_state = READY | WAIT_DFI | RUN | IDLE | BUBBLE

definition PIPELINE_DELAY :: nat where "PIPELINE_DELAY = 2"

record 'a executor =
  fsm :: fsm_state
  program_counter :: 'a
  program_counter_old :: 'a
  dat_r :: "32 word"
  instruction :: "32 word"
  loop_counter :: "12 word"
  idle_counter :: "29 word"
  wants_dfi :: bool

definition stall :: "'a::len word executor \<Rightarrow> bool" where
  "stall s = (case fsm s of READY \<Rightarrow> True | WAIT_DFI \<Rightarrow> True | RUN \<Rightarrow> False
                          | IDLE \<Rightarrow> True | BUBBLE \<Rightarrow> False)"

definition executing :: "'a::len word executor \<Rightarrow> bool" where
  "executing s = (case fsm s of READY \<Rightarrow> False | WAIT_DFI \<Rightarrow> False | RUN \<Rightarrow> True
                              | IDLE \<Rightarrow> True | BUBBLE \<Rightarrow> True)"

definition ready :: "'a::len word executor \<Rightarrow> bool" where
  "ready s = (fsm s = READY)"

definition reset_pc :: "'a::len word executor \<Rightarrow> bool" where
  "reset_pc s = (fsm s = READY)"

definition scratchpad_reset :: "'a::len word executor \<Rightarrow> bool" where
  "scratchpad_reset s = (fsm s = WAIT_DFI)"

definition mem_addr :: "'a::len word executor \<Rightarrow> 'a word" where
  "mem_addr s = (if stall s then program_counter_old s else program_counter s)"

text \<open>The condition of the first \<open>If\<close> of the RUN state.\<close>

definition terminate :: "'a::len word executor \<Rightarrow> bool" where
  "terminate s =
     (let d = Decoder (instruction s)
      in (unat (mem_addr s) = PIPELINE_DELAY - 1 \<or> stop d)
         \<and> (op_code d \<noteq> word_of_int (op_value LOOP) \<or> loop_count d = loop_counter s))"

definition jump :: "'a::len word executor \<Rightarrow> bool" where
  "jump s =
     (let d = Decoder (instruction s)
      in fsm s = RUN \<and> \<not> terminate s \<and> op_code d = word_of_int (op_value LOOP)
         \<and> loop_counter s \<noteq> loop_count d)"

definition jump_offset :: "'a::len word executor \<Rightarrow> 17 word" where
  "jump_offset s = loop_jump (Decoder (instruction s))"

text \<open>
  \<open>program_counter - jump_offset - pipeline_delay\<close> is computed on integers and then
  truncated to the width of \<open>next_addr\<close>.
\<close>

definition next_addr :: "'a::len word executor \<Rightarrow> 'a word" where
  "next_addr s =
     (if \<not> jump s then program_counter s + 1
      else word_of_int (uint (program_counter s) - uint (jump_offset s) - int PIPELINE_DELAY))"

text \<open>The command emitter's strobe and phase selection, driven in the DFI branch of RUN.\<close>

definition dfi_exec :: "'a::len word executor \<Rightarrow> bool" where
  "dfi_exec s =
     (fsm s = RUN \<and> \<not> terminate s
      \<and> op_code (Decoder (instruction s)) \<noteq> word_of_int (op_value LOOP))"

definition dfi_phase_sel :: "nat \<Rightarrow> 'a::len word executor \<Rightarrow> nat" where
  "dfi_phase_sel rdphase s =
     (let d = Decoder (instruction s)
      in if dfi_exec s \<and> cas d \<and> \<not> ras d \<and> \<not> we d then rdphase else 0)"

definition step :: "('a::len word \<Rightarrow> 32 word) \<Rightarrow> bool \<Rightarrow> bool \<Rightarrow> 'a word executor \<Rightarrow> 'a word executor" where
  "step mem start dfi_ready s =
     (let d = Decoder (instruction s);
          s1 = s\<lparr>program_counter :=
                    (if \<not> stall s then next_addr s
                     else if reset_pc s then 0 else program_counter s),
                  program_counter_old :=
                    (if \<not> stall s then program_counter s
                     else if reset_pc s then 0 else program_counter_old s),
                  instruction := (if \<not> stall s then dat_r s else instruction s),
                  dat_r := mem (mem_addr s)\<rparr>
      in case fsm s of
           READY \<Rightarrow>
             if start then s1\<lparr>wants_dfi := True, fsm := WAIT_DFI\<rparr> else s1
         | WAIT_DFI \<Rightarrow>
             if dfi_ready
             then s1\<lparr>fsm := BUBBLE, idle_counter := word_of_nat (PIPELINE_DELAY - 1)\<rparr>
             else s1
         | RUN \<Rightarrow>
             if terminate s then s1\<lparr>wants_dfi := False, fsm := READY\<rparr>
             else if op_code d = word_of_int (op_value LOOP) then
               (if loop_counter s \<noteq> loop_count d
                then s1\<lparr>loop_counter := loop_counter s + 1, fsm := BUBBLE,
                        idle_counter := word_of_nat (PIPELINE_DELAY - 1)\<rparr>
                else s1\<lparr>loop_counter := 0\<rparr>)
             else
               (if timeslice d = 0 \<or> timeslice d = 1 then s1
                else s1\<lparr>idle_counter := timeslice d - 2, fsm := IDLE\<rparr>)
         | IDLE \<Rightarrow>
             if idle_counter s = 0 then s1\<lparr>fsm := RUN\<rparr>
             else s1\<lparr>idle_counter := idle_counter s - 1\<rparr>
         | BUBBLE \<Rightarrow>
             if idle_counter s = 0 then s1\<lparr>fsm := RUN\<rparr>
             else s1\<lparr>idle_counter := idle_counter s - 1\<rparr>)"

text \<open>
  Running the executor over a list of per-cycle inputs \<open>(start, dfi_ready)\<close>, and the
  instruction words that the RUN state meets on the way, in order.
\<close>

fun cycles :: "('a::len word \<Rightarrow> 32 word) \<Rightarrow> (bool \<times> bool) list \<Rightarrow> 'a word executor \<Rightarrow> 'a word executor" where
  "cycles mem [] s = s"
| "cycles mem (i # ins) s = cycles mem ins (step mem (fst i) (snd i) s)"

fun run_trace :: "('a::len word \<Rightarrow> 32 word) \<Rightarrow> (bool \<times> bool) list \<Rightarrow> 'a word executor \<Rightarrow> 32 word list" where
  "run_trace mem [] s = []"
| "run_trace mem (i # ins) s =
     (if fsm s = RUN then [instruction s] else [])
     @ run_trace mem ins (step mem (fst i) (snd i) s)"

fun fsm_trace :: "('a::len word \<Rightarrow> 32 word) \<Rightarrow> (bool \<times> bool) list \<Rightarrow> 'a word executor \<Rightarrow> fsm_state list" where
  "fsm_trace mem [] s = []"
| "fsm_trace mem (i # ins) s = fsm s # fsm_trace mem ins (step mem (fst i) (snd i) s)"

text \<open>The number of cycles an instruction word takes in the DFI branch of RUN.\<close>

definition occupancy :: "32 word \<Rightarrow> nat" where
  "occupancy w =
     (let t = timeslice (Decoder w) in if t = 0 \<or> t = 1 then 1 else unat t)"

section \<open>Scratchpad\<close>

text \<open>
  The cursor is declared \<open>Signal(max=mem.depth - 1)\<close>. A signal declared with \<open>max=m\<close>
  is as wide as the largest value it is declared for, \<open>m - 1\<close>, needs (\<open>bits_for(m - 1)\<close>:
  the number of binary digits, one digit for 0), and a value assigned to it is cut to that
  width. So the cursor has \<open>bits_for(depth - 2)\<close> bits. The declaration needs
  \<open>depth \<ge> 3\<close>.
\<close>

fun bit_length :: "nat \<Rightarrow> nat" where
  "bit_length n = (if n = 0 then 0 else Suc (bit_length (n div 2)))"

declare bit_length.simps [simp del]

definition bits_for :: "nat \<Rightarrow> nat" where
  "bits_for n = (if 0 < n then bit_length n else 1)"

definition counter_width :: "nat \<Rightarrow> nat" where
  "counter_width depth = bits_for (depth - 1 - 1)"

text \<open>
  The registers of \<open>Scratchpad\<close>: the cursor \<open>counter\<close>, the \<open>overflow\<close> flag and the
  registered write port signals. Each bus phase delivers \<open>(rddata, rddata_valid)\<close>.
  \<open>ResetInserter\<close> puts every register back to its reset value whenever \<open>reset\<close> is high
  at the clock edge.
\<close>

record scratchpad =
  counter :: nat
  overflow :: bool
  wr_adr :: nat
  wr_dat_w :: "nat list"
  wr_we :: "bool list"

definition we_any :: "scratchpad \<Rightarrow> bool" where
  "we_any sp = (\<exists>b \<in> set (wr_we sp). b)"

definition scratchpad_step ::
  "nat \<Rightarrow> nat \<Rightarrow> bool \<Rightarrow> (nat \<times> bool) list \<Rightarrow> scratchpad \<Rightarrow> scratchpad" where
  "scratchpad_step depth we_replicate reset phases sp =
     (if reset
      then \<lparr>counter = 0, overflow = False, wr_adr = 0,
            wr_dat_w = map (\<lambda>p. 0) phases,
            wr_we = concat (map (\<lambda>p. replicate we_replicate False) phases)\<rparr>
      else \<lparr>counter =
              (if we_any sp
               then (if int (counter sp) = int depth - 1 then 0
                     else (counter sp + 1) mod 2 ^ counter_width depth)
               else counter sp),
            overflow =
              (if we_any sp \<and> int (counter sp) = int depth - 1 then True else overflow sp),
            wr_adr = counter sp,
            wr_dat_w = map fst phases,
            wr_we = concat (map (\<lambda>p. replicate we_replicate (snd p)) phases)\<rparr>)"

text \<open>
  The scratchpad driven by the executor: its reset is the executor's \<open>scratchpad_reset\<close>
  of the same cycle. The run takes, per cycle, the executor's inputs and the read data of
  the phases.
\<close>

fun system_cycles ::
  "('a::len word \<Rightarrow> 32 word) \<Rightarrow> nat \<Rightarrow> nat \<Rightarrow> ((bool \<times> bool) \<times> (nat \<times> bool) list) list
     \<Rightarrow> 'a word executor \<times> scratchpad \<Rightarrow> 'a word executor \<times> scratchpad" where
  "system_cycles mem depth we_replicate [] st = st"
| "system_cycles mem depth we_replicate (i # ins) st =
     system_cycles mem depth we_replicate ins
       (step mem (fst (fst i)) (snd (fst i)) (fst st),
        scratchpad_step depth we_replicate (scratchpad_reset (fst st)) (snd i) (snd st))"

text \<open>The scratchpad's registers after a reset, for one bus phase and one byte enable.\<close>

definition scratchpad_cleared :: scratchpad where
  "scratchpad_cleared =
     \<lparr>counter = 0, overflow = False, wr_adr = 0, wr_dat_w = [0], wr_we = [False]\<rparr>"

section \<open>Refresh counter and bus switch\<close>

record ('r, 'w) dfi_phase =
  cs_n :: 'r
  cas_n :: bool
  ras_n :: bool
  we_n :: bool
  ph_address :: 'w

definition refresh :: "string \<Rightarrow> ('r::len word, 'w::len word) dfi_phase \<Rightarrow> bool" where
  "refresh memtype ph =
     (if memtype = ''DDR5''
      then bit (NOT (cs_n ph)) 0 \<and> take_bit 5 (ph_address ph) = 19
      else cs_n ph = 0 \<and> \<not> cas_n ph \<and> \<not> ras_n ph \<and> we_n ph)"

datatype switch_state = MEMORY_CONTROLLER | PAYLOAD_EXECUTION

record dfi_switch =
  sw_fsm :: switch_state
  refresh_counter :: "64 word"

definition refresh_matches :: "64 word \<Rightarrow> dfi_switch \<Rightarrow> bool" where
  "refresh_matches at_refresh sw =
     (at_refresh = 0 \<or> uint at_refresh = uint (refresh_counter sw) + 1)"

definition dfi_ready :: "dfi_switch \<Rightarrow> bool" where
  "dfi_ready sw = (sw_fsm sw = PAYLOAD_EXECUTION)"

definition ext_dfi_sel :: "dfi_switch \<Rightarrow> bool" where
  "ext_dfi_sel sw = (sw_fsm sw = PAYLOAD_EXECUTION)"

definition refresher_reset :: "bool \<Rightarrow> dfi_switch \<Rightarrow> bool" where
  "refresher_reset wants sw = (sw_fsm sw = PAYLOAD_EXECUTION \<and> \<not> wants)"

definition switch_step ::
  "string \<Rightarrow> bool \<Rightarrow> bool \<Rightarrow> 64 word \<Rightarrow> ('r::len word, 'w::len word) dfi_phase \<Rightarrow> dfi_switch \<Rightarrow> dfi_switch" where
  "switch_step memtype with_refresh wants at_refresh ph sw =
     \<lparr>sw_fsm =
        (case sw_fsm sw of
           MEMORY_CONTROLLER \<Rightarrow>
             if wants then
               (if with_refresh then
                  (if refresh memtype ph \<and> refresh_matches at_refresh sw
                   then PAYLOAD_EXECUTION else MEMORY_CONTROLLER)
                else PAYLOAD_EXECUTION)
             else MEMORY_CONTROLLER
         | PAYLOAD_EXECUTION \<Rightarrow>
             if \<not> wants then MEMORY_CONTROLLER else PAYLOAD_EXECUTION),
      refresh_counter =
        (if refresh memtype ph then refresh_counter sw + 1 else refresh_counter sw)\<rparr>"

section \<open>Pipeline state and loop bodies\<close>

text \<open>
  \<open>fetched mem a s\<close>: the executor is in RUN with the word of address \<open>a\<close> in the
  instruction register and the fetch pipeline filled behind it in sequence (the read port
  holds the word of \<open>a + 1\<close>, the program counter is \<open>a + 2\<close>). \<open>loop_body mem L j\<close> is
  the list of the \<open>j\<close> words stored immediately before address \<open>L\<close>.
\<close>

definition fetched :: "('a::len word \<Rightarrow> 32 word) \<Rightarrow> 'a word \<Rightarrow> 'a word executor \<Rightarrow> bool" where
  "fetched mem a s \<longleftrightarrow>
     fsm s = RUN \<and> instruction s = mem a \<and> dat_r s = mem (a + 1)
     \<and> program_counter s = a + 2 \<and> program_counter_old s = a + 1"

definition loop_body :: "('a::len word \<Rightarrow> 32 word) \<Rightarrow> 'a word \<Rightarrow> nat \<Rightarrow> 32 word list" where
  "loop_body mem L j = map (\<lambda>i. mem (L - of_nat j + of_nat i)) [0..<j]"

text \<open>
  A payload memory of depth 16 holding \<open>ACT(timeslice=1)\<close>, \<open>PRE(timeslice=1)\<close>,
  \<open>LOOP(count=1, jump=1)\<close> and STOP words from address 0 on, and the executor's registers
  at power-on.
\<close>

definition example_program :: "4 word \<Rightarrow> 32 word" where
  "example_program a =
     (if a = 0 then 12 else if a = 1 then 13 else if a = 2 then 32783 else 0)"

definition power_on :: "4 word executor" where
  "power_on = \<lparr>fsm = READY, program_counter = 0, program_counter_old = 0, dat_r = 0,
                instruction = 0, loop_counter = 0, idle_counter = 0, wants_dfi = False\<rparr>"

text \<open>
  The keyword arguments that \<open>Instruction.__init__\<close> reads with \<open>kwargs["k"]\<close>:
  \<open>count\<close> and \<open>jump\<close> for LOOP, \<open>timeslice\<close> for every other op code.
\<close>

definition has_required_kwargs :: "OpCode \<Rightarrow> kwargs \<Rightarrow> bool" where
  "has_required_kwargs op kw =
     (if op = LOOP then kw_count kw \<noteq> None \<and> kw_jump kw \<noteq> None
      else kw_timeslice kw \<noteq> None)"

definition is_dfi :: "OpCode \<Rightarrow> bool" where
  "is_dfi op = (op \<in> {ACT, PRE, REF, ZQC, READ})"

section \<open>Codec: auxiliary facts\<close>

lemma is_dfi_iff: "is_dfi op \<longleftrightarrow> op \<noteq> LOOP \<and> op \<noteq> NOOP"
  by (cases op) (simp_all add: is_dfi_def)

lemma pack3: "pack [(a, x), (b, y), (c, z)] 0 0 =
   take_bit a x OR push_bit a (take_bit b y) OR push_bit (a + b) (take_bit c z)"
  by (simp add: take_bit_eq_mask mask_eq_exp_minus_1 or.assoc)

lemma pack2: "pack [(a, x), (b, y)] 0 0 =
   take_bit a x OR push_bit a (take_bit b y)"
  by (simp add: take_bit_eq_mask mask_eq_exp_minus_1)

lemma uint_fields:
  "uint (ucast (w :: 32 word) :: 3 word) = take_bit 3 (uint w)"
  "uint (ucast (w :: 32 word) :: 29 word) = take_bit 29 (uint w)"
  "uint (ucast (w :: 32 word) :: 24 word) = take_bit 24 (uint w)"
  "uint (ucast (w :: 32 word) :: 12 word) = take_bit 12 (uint w)"
  "uint (ucast (w :: 32 word) :: 17 word) = take_bit 17 (uint w)"
  by (simp_all add: unsigned_ucast_eq)

lemma dec_op:
  "uint (op_code (Decoder (word_of_int k))) = take_bit 3 k"
  by (simp add: Decoder_def Let_def uint_fields uint_word_of_int_eq width_defs)

lemma dec_loop_count:
  "uint (loop_count (Decoder (word_of_int k))) = take_bit 12 (drop_bit 3 k)"
  apply (simp add: Decoder_def Let_def uint_fields uint_word_of_int_eq width_defs unsigned_drop_bit_eq)
  apply (rule bit_eqI)
  apply (auto simp: bit_simps)
  done

lemma dec_loop_jump:
  "uint (loop_jump (Decoder (word_of_int k))) = take_bit 17 (drop_bit 15 k)"
  apply (simp add: Decoder_def Let_def uint_fields uint_word_of_int_eq width_defs unsigned_drop_bit_eq)
  apply (rule bit_eqI)
  apply (auto simp: bit_simps)
  done

lemma dec_address:
  "uint (address (Decoder (word_of_int k))) = take_bit 24 (drop_bit 8 k)"
  apply (simp add: Decoder_def Let_def uint_fields uint_word_of_int_eq width_defs unsigned_drop_bit_eq)
  apply (rule bit_eqI)
  apply (auto simp: bit_simps)
  done

lemma dec_timeslice:
  "uint (timeslice (Decoder (word_of_int k))) =
     (if take_bit 3 k = 0 then take_bit 29 (drop_bit 3 k) else take_bit 5 (drop_bit 3 k))"
  apply (simp add: Decoder_def Let_def uint_fields uint_word_of_int_eq width_defs unsigned_drop_bit_eq unsigned_take_bit_eq word_uint_eq_iff)
  apply (intro conjI impI)
  apply (rule bit_eqI)
   apply (auto simp: bit_simps)[1]
  apply (rule bit_eqI)
   apply (auto simp: bit_simps)[1]
  done

lemma in_range_iff: "0 \<le> w \<and> w < 2 ^ n \<longleftrightarrow> take_bit n (w::int) = w"
  by (auto simp: take_bit_int_eq_self_iff)

lemma tb_id: "0 \<le> x \<Longrightarrow> x < 2 ^ n \<Longrightarrow> take_bit n (x::int) = x"
  by (simp add: take_bit_int_eq_self)

lemma op_value_tb: "take_bit 3 (op_value op) = op_value op"
  by (cases op; simp)

lemma op_value_0: "op_value a = 0 \<longleftrightarrow> a = NOOP"
  by (cases a; simp)

lemma and_mask5: "(t::int) AND 31 = take_bit 5 t"
  using take_bit_eq_mask [of 5 t] by (simp add: mask_eq_exp_minus_1)

lemma encode_LOOP:
  "kw_count kw = Some c \<Longrightarrow> c < 2 ^ 12 \<Longrightarrow> kw_jump kw = Some j \<Longrightarrow>
   encode LOOP kw = Inr [7 OR push_bit 3 (take_bit 12 c) OR push_bit 15 (take_bit 17 j)]"
  by (simp add: encode_def Instruction_init_def encode_spec_def width_defs pack3 del: pack.simps)

lemma encode_NOOP:
  "kw_timeslice kw = Some t \<Longrightarrow> t < 2 ^ 29 \<Longrightarrow>
   encode NOOP kw = Inr [push_bit 3 (take_bit 29 t)]"
  by (simp add: encode_def Instruction_init_def encode_spec_def width_defs pack2 del: pack.simps)

lemma encode_DFI:
  "is_dfi op \<Longrightarrow> kw_timeslice kw = Some t \<Longrightarrow> t \<noteq> 0 \<Longrightarrow> kw_address kw \<noteq> None \<or> op = REF \<Longrightarrow>
   encode op kw = Inr (
     (op_value op OR push_bit 3 (take_bit 5 (max (take_bit 5 t) 1))
        OR push_bit 8 (take_bit 24 (case kw_address kw of None \<Rightarrow> 0 | Some a \<Rightarrow> a)))
     # (if max (take_bit 5 t) 1 \<noteq> t then map (\<lambda>p. pack p 0 0) (noops_loop 0 (t - max (take_bit 5 t) 1)) else []))"
  by (auto simp add: is_dfi_iff encode_def Instruction_init_def encode_spec_def width_defs pack3 Let_def op_value_tb
      and_mask5 simp del: pack.simps)


lemma loop_word:
  fixes x c j :: int
  defines "w \<equiv> take_bit 3 x OR push_bit 3 (take_bit 12 c) OR push_bit 15 (take_bit 17 j)"
  shows "take_bit 3 w = take_bit 3 x"
    and "take_bit 12 (drop_bit 3 w) = take_bit 12 c"
    and "take_bit 17 (drop_bit 15 w) = take_bit 17 j"
    and "take_bit 32 w = w"
  unfolding w_def
  by (rule bit_eqI, auto simp: bit_simps)+

lemma dfi_word:
  fixes x t a :: int
  defines "w \<equiv> take_bit 3 x OR push_bit 3 (take_bit 5 t) OR push_bit 8 (take_bit 24 a)"
  shows "take_bit 3 w = take_bit 3 x"
    and "take_bit 5 (drop_bit 3 w) = take_bit 5 t"
    and "take_bit 24 (drop_bit 8 w) = take_bit 24 a"
    and "take_bit 32 w = w"
  unfolding w_def
  by (rule bit_eqI, auto simp: bit_simps)+

lemma noop_word:
  fixes t :: int
  defines "w \<equiv> push_bit 3 (take_bit 29 t)"
  shows "take_bit 3 w = 0"
    and "take_bit 29 (drop_bit 3 w) = take_bit 29 t"
    and "take_bit 32 w = w"
  unfolding w_def
  by (rule bit_eqI, auto simp: bit_simps)+

section \<open>Codec: round trip\<close>

text \<open>
  Claim C1, amended. For a LOOP with \<open>0 \<le> count < 2^12\<close> and \<open>0 \<le> jump < 2^17\<close>, a NOOP
  with \<open>0 \<le> timeslice < 2^29\<close>, or a DFI instruction with \<open>1 \<le> timeslice \<le> 31\<close> and
  \<open>0 \<le> address < 2^24\<close>, \<open>encode\<close> returns exactly one word, that word lies in
  \<open>[0, 2^32)\<close>, and the decoder's field extraction on it gives back the op code and the
  fields of the instruction.
\<close>

theorem C1_roundtrip:
  "(0 \<le> c \<and> c < 2 ^ 12 \<and> 0 \<le> j \<and> j < 2 ^ 17 \<and> kw_count kw = Some c \<and> kw_jump kw = Some j \<longrightarrow>
      (\<exists>w. encode LOOP kw = Inr [w] \<and> 0 \<le> w \<and> w < 2 ^ 32 \<and>
           uint (op_code (Decoder (word_of_int w))) = op_value LOOP \<and>
           uint (loop_count (Decoder (word_of_int w))) = c \<and>
           uint (loop_jump (Decoder (word_of_int w))) = j))
 \<and> (0 \<le> t \<and> t < 2 ^ 29 \<and> kw_timeslice kw = Some t \<longrightarrow>
      (\<exists>w. encode NOOP kw = Inr [w] \<and> 0 \<le> w \<and> w < 2 ^ 32 \<and>
           uint (op_code (Decoder (word_of_int w))) = op_value NOOP \<and>
           uint (timeslice (Decoder (word_of_int w))) = t))
 \<and> (is_dfi op \<and> 1 \<le> t \<and> t \<le> 31 \<and> kw_timeslice kw = Some t \<and>
      0 \<le> a \<and> a < 2 ^ 24 \<and> kw_address kw = Some a \<longrightarrow>
      (\<exists>w. encode op kw = Inr [w] \<and> 0 \<le> w \<and> w < 2 ^ 32 \<and>
           uint (op_code (Decoder (word_of_int w))) = op_value op \<and>
           uint (timeslice (Decoder (word_of_int w))) = t \<and>
           uint (address (Decoder (word_of_int w))) = a))"
proof (intro conjI impI)
  assume h: "0 \<le> c \<and> c < 2 ^ 12 \<and> 0 \<le> j \<and> j < 2 ^ 17 \<and> kw_count kw = Some c \<and> kw_jump kw = Some j"
  define w where "w = take_bit 3 7 OR push_bit 3 (take_bit 12 c) OR push_bit 15 (take_bit 17 j)"
  have e: "encode LOOP kw = Inr [w]"
    using h encode_LOOP [of kw c j] by (simp add: w_def)
  have c: "take_bit 12 c = c" and j: "take_bit 17 j = j"
    using h by (simp_all add: tb_id)
  note lw = loop_word [of 7 c j, folded w_def]
  have "0 \<le> w \<and> w < 2 ^ 32"
    using lw(4) by (simp only: in_range_iff)
  moreover have "uint (op_code (Decoder (word_of_int w))) = op_value LOOP"
    using lw(1) by (simp add: dec_op)
  moreover have "uint (loop_count (Decoder (word_of_int w))) = c"
    using lw(2) c by (simp add: dec_loop_count)
  moreover have "uint (loop_jump (Decoder (word_of_int w))) = j"
    using lw(3) j by (simp add: dec_loop_jump)
  ultimately show "\<exists>w. encode LOOP kw = Inr [w] \<and> 0 \<le> w \<and> w < 2 ^ 32 \<and>
           uint (op_code (Decoder (word_of_int w))) = op_value LOOP \<and>
           uint (loop_count (Decoder (word_of_int w))) = c \<and>
           uint (loop_jump (Decoder (word_of_int w))) = j"
    using e by blast
next
  assume h: "0 \<le> t \<and> t < 2 ^ 29 \<and> kw_timeslice kw = Some t"
  define w where "w = push_bit 3 (take_bit 29 t)"
  have e: "encode NOOP kw = Inr [w]"
    using h encode_NOOP [of kw t] by (simp add: w_def)
  have t: "take_bit 29 t = t"
    using h by (simp add: tb_id)
  note nw = noop_word [of t, folded w_def]
  have "0 \<le> w \<and> w < 2 ^ 32"
    using nw(3) by (simp only: in_range_iff)
  moreover have "uint (op_code (Decoder (word_of_int w))) = op_value NOOP"
    using nw(1) by (simp add: dec_op)
  moreover have "uint (timeslice (Decoder (word_of_int w))) = t"
    using nw(1,2) t by (simp add: dec_timeslice)
  ultimately show "\<exists>w. encode NOOP kw = Inr [w] \<and> 0 \<le> w \<and> w < 2 ^ 32 \<and>
           uint (op_code (Decoder (word_of_int w))) = op_value NOOP \<and>
           uint (timeslice (Decoder (word_of_int w))) = t"
    using e by blast
next
  assume h: "is_dfi op \<and> 1 \<le> t \<and> t \<le> 31 \<and> kw_timeslice kw = Some t \<and>
      0 \<le> a \<and> a < 2 ^ 24 \<and> kw_address kw = Some a"
  define w where "w = take_bit 3 (op_value op) OR push_bit 3 (take_bit 5 t) OR push_bit 8 (take_bit 24 a)"
  have t: "take_bit 5 t = t" and a: "take_bit 24 a = a"
    using h by (simp_all add: tb_id)
  have e: "encode op kw = Inr [w]"
    using h encode_DFI [of op kw t] t by (simp add: w_def op_value_tb)
  note dw = dfi_word [of "op_value op" t a, folded w_def]
  have nz: "op_value op \<noteq> 0"
    using h by (simp add: op_value_0 is_dfi_iff)
  have "0 \<le> w \<and> w < 2 ^ 32"
    using dw(4) by (simp only: in_range_iff)
  moreover have "uint (op_code (Decoder (word_of_int w))) = op_value op"
    using dw(1) by (simp add: dec_op op_value_tb)
  moreover have "uint (timeslice (Decoder (word_of_int w))) = t"
    using dw(1,2) t nz by (simp add: dec_timeslice op_value_tb)
  moreover have "uint (address (Decoder (word_of_int w))) = a"
    using dw(3) a by (simp add: dec_address)
  ultimately show "\<exists>w. encode op kw = Inr [w] \<and> 0 \<le> w \<and> w < 2 ^ 32 \<and>
           uint (op_code (Decoder (word_of_int w))) = op_value op \<and>
           uint (timeslice (Decoder (word_of_int w))) = t \<and>
           uint (address (Decoder (word_of_int w))) = a"
    using e by blast
qed

theorem C1_roundtrip_witness:
  "(\<exists>w. encode LOOP \<lparr>kw_count = Some 9, kw_jump = Some 1, kw_timeslice = Some 4,
                       kw_address = Some 74563\<rparr> = Inr [w] \<and> 0 \<le> w \<and> w < 2 ^ 32 \<and>
        uint (op_code (Decoder (word_of_int w))) = 7 \<and>
        uint (loop_count (Decoder (word_of_int w))) = 9 \<and>
        uint (loop_jump (Decoder (word_of_int w))) = 1)
 \<and> (\<exists>w. encode NOOP \<lparr>kw_count = Some 9, kw_jump = Some 1, kw_timeslice = Some 4,
                       kw_address = Some 74563\<rparr> = Inr [w] \<and> 0 \<le> w \<and> w < 2 ^ 32 \<and>
        uint (op_code (Decoder (word_of_int w))) = 0 \<and>
        uint (timeslice (Decoder (word_of_int w))) = 4)
 \<and> (\<exists>w. encode ACT \<lparr>kw_count = Some 9, kw_jump = Some 1, kw_timeslice = Some 4,
                      kw_address = Some 74563\<rparr> = Inr [w] \<and> 0 \<le> w \<and> w < 2 ^ 32 \<and>
        uint (op_code (Decoder (word_of_int w))) = 4 \<and>
        uint (timeslice (Decoder (word_of_int w))) = 4 \<and>
        uint (address (Decoder (word_of_int w))) = 74563)"
  using C1_roundtrip [of 9 1 "\<lparr>kw_count = Some 9, kw_jump = Some 1, kw_timeslice = Some 4,
                       kw_address = Some 74563\<rparr>" 4 ACT 74563]
  by (simp add: is_dfi_def)

text \<open>
  The claim as first stated constrains only the count of a LOOP. A jump of \<open>2^17\<close> passes
  validation, is masked to 17 bits by \<open>encode_spec\<close>, and decodes as 0.
\<close>

theorem C1_counterexample:
  "encode LOOP \<lparr>kw_count = Some 0, kw_jump = Some 131072, kw_timeslice = None, kw_address = None\<rparr> = Inr [7]
   \<and> uint (loop_jump (Decoder (word_of_int 7))) \<noteq> 131072"
  by (simp add: encode_def Instruction_init_def encode_spec_def width_defs Decoder_def)

section \<open>Codec: validation\<close>



text \<open>
  Outside that domain the constructor raises as well: reading an absent required keyword
  is a \<open>KeyError\<close> (or the count assertion fails first).
\<close>

lemma Instruction_init_missing_kwarg:
  "\<not> has_required_kwargs op kw \<Longrightarrow> \<exists>e. Instruction_init op kw = Inl e"
  by (cases op)
     (auto simp: Instruction_init_def has_required_kwargs_def split: option.splits)

section \<open>Codec: long timeslices\<close>

lemma noops_loop_unfold:
  "i < r \<Longrightarrow> noops_loop i r = [(3, 0), (29, min (r - i) 28)] # noops_loop (i + 28) r"
  "\<not> i < r \<Longrightarrow> noops_loop i r = []"
  by (subst noops_loop.simps, simp add: width_defs)+

lemma noops_loop_shape:
  "\<forall>p \<in> set (noops_loop i r). \<exists>wt. p = [(3, 0), (29, wt)] \<and> 1 \<le> wt \<and> wt \<le> 28"
proof (induction i r rule: noops_loop.induct)
  case (1 i r)
  show ?case
  proof (cases "i < r")
    case True
    then show ?thesis
      using 1 by (auto simp: noops_loop_unfold(1) width_defs)
  next
    case False
    then show ?thesis by (simp add: noops_loop_unfold(2))
  qed
qed

lemma noop_word_props:
  assumes "0 \<le> wt" "wt < 2 ^ 29"
  shows "uint (op_code (Decoder (word_of_int (pack [(3, 0), (29, wt)] 0 0)))) = op_value NOOP"
    and "noop_word_duration (pack [(3, 0), (29, wt)] 0 0) = wt"
    and "0 \<le> pack [(3, 0), (29, wt)] 0 0" and "pack [(3, 0), (29, wt)] 0 0 < 2 ^ 32"
proof -
  have p: "pack [(3, 0), (29, wt)] 0 0 = push_bit 3 (take_bit 29 wt)"
    by (simp add: pack2 del: pack.simps)
  have t: "take_bit 29 wt = wt"
    using assms by (simp add: tb_id)
  show "uint (op_code (Decoder (word_of_int (pack [(3, 0), (29, wt)] 0 0)))) = op_value NOOP"
    unfolding p using noop_word(1) [of wt] by (simp add: dec_op)
  show "noop_word_duration (pack [(3, 0), (29, wt)] 0 0) = wt"
    unfolding p noop_word_duration_def using noop_word(1,2) [of wt] t by (simp add: dec_timeslice)
  have "0 \<le> pack [(3, 0), (29, wt)] 0 0 \<and> pack [(3, 0), (29, wt)] 0 0 < 2 ^ 32"
    unfolding p using noop_word(3) [of wt] by (simp only: in_range_iff)
  then show "0 \<le> pack [(3, 0), (29, wt)] 0 0" and "pack [(3, 0), (29, wt)] 0 0 < 2 ^ 32"
    by simp_all
qed

lemma noops_loop_sum:
  "sum_list (map (\<lambda>p. noop_word_duration (pack p 0 0)) (noops_loop i r)) =
     (if i < r then r - i else 0)"
proof (induction i r rule: noops_loop.induct)
  case (1 i r)
  show ?case
  proof (cases "i < r")
    case True
    have "noop_word_duration (pack [(3, 0), (29, min (r - i) 28)] 0 0) = min (r - i) 28"
      using True by (intro noop_word_props(2)) auto
    then show ?thesis
      using 1 True by (auto simp: noops_loop_unfold(1) width_defs simp del: pack.simps)
  next
    case False
    then show ?thesis by (simp add: noops_loop_unfold(2))
  qed
qed

lemma base_timeslice_range:
  "1 \<le> max (take_bit 5 (t::int)) 1" "max (take_bit 5 (t::int)) 1 \<le> 31"
  "take_bit 5 (max (take_bit 5 t) 1) = max (take_bit 5 t) 1"
proof -
  have "take_bit 5 t < 2 ^ 5" by (rule take_bit_int_less_exp)
  then show "max (take_bit 5 t) 1 \<le> 31" by simp
  show "1 \<le> max (take_bit 5 t) 1" by simp
  show "take_bit 5 (max (take_bit 5 t) 1) = max (take_bit 5 t) 1"
    using \<open>take_bit 5 t < 2 ^ 5\<close> by (intro tb_id) auto
qed

lemma base_timeslice_le: "1 \<le> t \<Longrightarrow> max (take_bit 5 (t::int)) 1 \<le> t"
  by (simp add: take_bit_int_less_eq_self_iff)

lemma dfi_base_word_props:
  fixes b a :: int
  assumes "is_dfi op" "1 \<le> b" "b \<le> 31"
  defines "w \<equiv> op_value op OR push_bit 3 (take_bit 5 b) OR push_bit 8 (take_bit 24 a)"
  shows "uint (op_code (Decoder (word_of_int w))) = op_value op"
    and "uint (timeslice (Decoder (word_of_int w))) = b"
    and "uint (address (Decoder (word_of_int w))) = take_bit 24 a"
    and "0 \<le> w" and "w < 2 ^ 32"
proof -
  have w: "w = take_bit 3 (op_value op) OR push_bit 3 (take_bit 5 b) OR push_bit 8 (take_bit 24 a)"
    by (simp add: w_def op_value_tb)
  note dw = dfi_word [of "op_value op" b a, folded w]
  have b: "take_bit 5 b = b"
    using assms by (simp add: tb_id)
  have nz: "op_value op \<noteq> 0"
    using assms by (simp add: op_value_0 is_dfi_iff)
  show "uint (op_code (Decoder (word_of_int w))) = op_value op"
    using dw(1) by (simp add: dec_op op_value_tb)
  show "uint (timeslice (Decoder (word_of_int w))) = b"
    using dw(1,2) b nz by (simp add: dec_timeslice op_value_tb)
  show "uint (address (Decoder (word_of_int w))) = take_bit 24 a"
    using dw(3) by (simp add: dec_address)
  have "0 \<le> w \<and> w < 2 ^ 32"
    using dw(4) by (simp only: in_range_iff)
  then show "0 \<le> w" and "w < 2 ^ 32" by simp_all
qed

text \<open>
  The durations counted for encoded words are the cycles the executor spends on them:
  the DFI branch of RUN takes \<open>occupancy\<close> cycles for a word, which is the word's
  duration (a NOOP word of duration 0 is STOP and is not executed as a wait).
\<close>

lemma dfi_word_duration_occupancy:
  "dfi_word_duration w = int (occupancy (word_of_int w))"
proof -
  have "timeslice (Decoder (word_of_int w)) = 1
          \<longleftrightarrow> uint (timeslice (Decoder (word_of_int w))) = 1"
    by (simp add: word_uint_eq_iff)
  moreover have "timeslice (Decoder (word_of_int w)) = 0
          \<longleftrightarrow> uint (timeslice (Decoder (word_of_int w))) = 0"
    by (simp add: word_uint_eq_iff)
  ultimately show ?thesis
    by (auto simp: dfi_word_duration_def occupancy_def Let_def)
qed

lemma noop_word_duration_occupancy:
  "noop_word_duration w \<noteq> 0 \<Longrightarrow> noop_word_duration w = int (occupancy (word_of_int w))"
  using dfi_word_duration_occupancy [of w]
  by (simp add: dfi_word_duration_def noop_word_duration_def Let_def)

text \<open>
  Claim C2. A DFI instruction with requested timeslice \<open>T \<ge> 1\<close> (and an address, unless it
  is a REF) is encoded without error as a base word followed by NOOP words; the base
  word's duration (its decoded 5-bit timeslice, 0 counted as 1) plus the decoded 29-bit
  timeslices of the NOOP words is exactly \<open>T\<close>, and no NOOP word carries more than
  \<open>2^29 - 1\<close> cycles.
\<close>

theorem C2_total_duration:
  assumes "is_dfi op" and "kw_timeslice kw = Some T" and "1 \<le> T"
      and "kw_address kw \<noteq> None \<or> op = REF"
  shows "\<exists>w ws. encode op kw = Inr (w # ws)
           \<and> uint (op_code (Decoder (word_of_int w))) = op_value op
           \<and> (\<forall>n \<in> set ws. uint (op_code (Decoder (word_of_int n))) = op_value NOOP
                            \<and> noop_word_duration n \<le> 2 ^ 29 - 1)
           \<and> dfi_word_duration w + sum_list (map noop_word_duration ws) = T"
proof -
  define b where "b = max (take_bit 5 T) 1"
  define a where "a = (case kw_address kw of None \<Rightarrow> 0 | Some a \<Rightarrow> a)"
  define w where "w = op_value op OR push_bit 3 (take_bit 5 b) OR push_bit 8 (take_bit 24 a)"
  define ws where "ws = (if b \<noteq> T then map (\<lambda>p. pack p 0 0) (noops_loop 0 (T - b)) else [])"
  have b: "1 \<le> b" "b \<le> 31" "b \<le> T"
    using base_timeslice_range [of T] base_timeslice_le [of T] assms(3) by (simp_all add: b_def)
  have e: "encode op kw = Inr (w # ws)"
    using encode_DFI [of op kw T] assms by (simp add: w_def ws_def b_def a_def)
  have op: "uint (op_code (Decoder (word_of_int w))) = op_value op"
    unfolding w_def using assms(1) b(1,2) by (rule dfi_base_word_props(1))
  have "uint (timeslice (Decoder (word_of_int w))) = b"
    unfolding w_def using assms(1) b(1,2) by (rule dfi_base_word_props(2))
  then have d: "dfi_word_duration w = b"
    using b by (simp add: dfi_word_duration_def)
  have n: "\<forall>n \<in> set ws. uint (op_code (Decoder (word_of_int n))) = op_value NOOP
                            \<and> noop_word_duration n \<le> 2 ^ 29 - 1"
  proof
    fix n assume "n \<in> set ws"
    then obtain p where p: "p \<in> set (noops_loop 0 (T - b))" "n = pack p 0 0"
      by (auto simp: ws_def split: if_splits)
    then obtain wt where wt: "p = [(3, 0), (29, wt)]" "1 \<le> wt" "wt \<le> 28"
      using noops_loop_shape [of 0 "T - b"] by blast
    have r: "0 \<le> wt" "wt < 2 ^ 29" using wt by simp_all
    show "uint (op_code (Decoder (word_of_int n))) = op_value NOOP
                            \<and> noop_word_duration n \<le> 2 ^ 29 - 1"
      using noop_word_props(1,2) [OF r] wt p(2) by simp
  qed
  have s: "sum_list (map noop_word_duration ws) = T - b"
    using noops_loop_sum [of 0 "T - b"] b(3) by (auto simp: ws_def comp_def)
  show ?thesis
    using e op n d s by (intro exI [of _ w] exI [of _ ws]) simp
qed

theorem C2_total_duration_witness:
  "\<exists>w ws. encode ACT \<lparr>kw_count = None, kw_jump = None, kw_timeslice = Some 100,
                        kw_address = Some 74563\<rparr> = Inr (w # ws)
      \<and> uint (op_code (Decoder (word_of_int w))) = 4
      \<and> (\<forall>n \<in> set ws. uint (op_code (Decoder (word_of_int n))) = 0
                       \<and> noop_word_duration n \<le> 2 ^ 29 - 1)
      \<and> dfi_word_duration w + sum_list (map noop_word_duration ws) = 100"
  using C2_total_duration [of ACT "\<lparr>kw_count = None, kw_jump = None, kw_timeslice = Some 100,
                        kw_address = Some 74563\<rparr>" 100]
  by (simp add: is_dfi_def)

text \<open>
  Claim C3, amended. For a DFI instruction with requested timeslice \<open>T > 31\<close> the first
  word keeps the op code and carries the timeslice \<open>max (T mod 32) 1\<close> (the low five bits
  of \<open>T\<close>, or 1 when they are all zero); it is followed by at least one NOOP word, and the
  NOOP timeslices add up to \<open>T - max (T mod 32) 1\<close>. For ACT with timeslice 100 the first
  word carries timeslice 4 and the NOOP words add up to 96.
\<close>

theorem C3_long_timeslice:
  assumes "is_dfi op" and "kw_timeslice kw = Some T" and "31 < T"
      and "kw_address kw \<noteq> None \<or> op = REF"
  shows "\<exists>w ws. encode op kw = Inr (w # ws) \<and> ws \<noteq> []
           \<and> uint (op_code (Decoder (word_of_int w))) = op_value op
           \<and> uint (timeslice (Decoder (word_of_int w))) = max (T mod 32) 1
           \<and> (\<forall>n \<in> set ws. uint (op_code (Decoder (word_of_int n))) = op_value NOOP)
           \<and> sum_list (map noop_word_duration ws) = T - max (T mod 32) 1"
proof -
  define b where "b = max (take_bit 5 T) 1"
  define a where "a = (case kw_address kw of None \<Rightarrow> 0 | Some a \<Rightarrow> a)"
  define w where "w = op_value op OR push_bit 3 (take_bit 5 b) OR push_bit 8 (take_bit 24 a)"
  define ws where "ws = map (\<lambda>p. pack p 0 0) (noops_loop 0 (T - b))"
  have b: "1 \<le> b" "b \<le> 31" "b < T"
    using base_timeslice_range [of T] assms(3) by (simp_all add: b_def)
  have bm: "b = max (T mod 32) 1"
    by (simp add: b_def take_bit_eq_mod)
  have neq: "max (take_bit 5 T) 1 \<noteq> T"
    using b(3) unfolding b_def by linarith
  have e: "encode op kw = Inr (w # ws)"
    using encode_DFI [of op kw T] assms neq by (simp add: w_def ws_def b_def a_def)
  have ne: "ws \<noteq> []"
    using b(3) by (simp add: ws_def noops_loop_unfold(1) [of 0 "T - b"])
  have op: "uint (op_code (Decoder (word_of_int w))) = op_value op"
    unfolding w_def using assms(1) b(1,2) by (rule dfi_base_word_props(1))
  have ts: "uint (timeslice (Decoder (word_of_int w))) = b"
    unfolding w_def using assms(1) b(1,2) by (rule dfi_base_word_props(2))
  have n: "\<forall>n \<in> set ws. uint (op_code (Decoder (word_of_int n))) = op_value NOOP"
  proof
    fix n assume "n \<in> set ws"
    then obtain p where p: "p \<in> set (noops_loop 0 (T - b))" "n = pack p 0 0"
      by (auto simp: ws_def)
    then obtain wt where wt: "p = [(3, 0), (29, wt)]" "1 \<le> wt" "wt \<le> 28"
      using noops_loop_shape [of 0 "T - b"] by blast
    have r: "0 \<le> wt" "wt < 2 ^ 29" using wt by simp_all
    show "uint (op_code (Decoder (word_of_int n))) = op_value NOOP"
      using noop_word_props(1) [OF r] wt p(2) by simp
  qed
  have s: "sum_list (map noop_word_duration ws) = T - b"
    using noops_loop_sum [of 0 "T - b"] b(3) by (auto simp: ws_def comp_def)
  show ?thesis
    using e ne op ts n s unfolding bm by (intro exI [of _ w] exI [of _ ws]) simp
qed

theorem C3_long_timeslice_witness:
  "\<exists>w ws. encode ACT \<lparr>kw_count = None, kw_jump = None, kw_timeslice = Some 100,
                        kw_address = Some 74563\<rparr> = Inr (w # ws) \<and> ws \<noteq> []
      \<and> uint (op_code (Decoder (word_of_int w))) = 4
      \<and> uint (timeslice (Decoder (word_of_int w))) = 4
      \<and> (\<forall>n \<in> set ws. uint (op_code (Decoder (word_of_int n))) = 0)
      \<and> sum_list (map noop_word_duration ws) = 96"
  using C3_long_timeslice [of ACT "\<lparr>kw_count = None, kw_jump = None, kw_timeslice = Some 100,
                        kw_address = Some 74563\<rparr>" 100]
  by (simp add: is_dfi_def)

text \<open>
  The claim as first stated has the first word carry timeslice 31 and, for ACT with
  timeslice 100, exactly two words. The encoder returns five: the ACT word with
  timeslice 4 (\<open>100 AND 31\<close>), then NOOP words of 28, 28, 28 and 12 cycles.
\<close>

theorem C3_counterexample:
  "encode ACT \<lparr>kw_count = None, kw_jump = None, kw_timeslice = Some 100,
               kw_address = Some 74563\<rparr> = Inr [19088164, 224, 224, 224, 96]
   \<and> length [19088164, 224, 224, 224, 96 :: int] \<noteq> 2
   \<and> uint (timeslice (Decoder (word_of_int 19088164))) \<noteq> 31"
  by (simp add: encode_def Instruction_init_def encode_spec_def width_defs Decoder_def
      noops_loop_unfold)

section \<open>Codec: range of the encoded words\<close>

lemma or_plus: "take_bit a x OR push_bit a y = take_bit a x + push_bit a (y::int)"
  using concat_bit_eq [of a x y] by (simp add: concat_bit_def)

lemma or_plus3:
  "take_bit a x OR push_bit a (take_bit b y) OR push_bit (a + b) (take_bit c z) =
     x mod 2 ^ a + 2 ^ a * (y mod 2 ^ b) + 2 ^ (a + b) * ((z::int) mod 2 ^ c)"
proof -
  have "take_bit a x OR push_bit a (take_bit b y) OR push_bit (a + b) (take_bit c z) =
        take_bit a x OR push_bit a (take_bit b y OR push_bit b (take_bit c z))"
    by (simp add: add.commute)
  also have "\<dots> = take_bit a x + push_bit a (take_bit b y + push_bit b (take_bit c z))"
    by (simp only: or_plus)
  also have "\<dots> = x mod 2 ^ a + 2 ^ a * (y mod 2 ^ b) + 2 ^ (a + b) * (z mod 2 ^ c)"
    by (simp add: take_bit_eq_mod push_bit_eq_mult power_add algebra_simps)
  finally show ?thesis .
qed

lemma pack_mod:
  "pack ps instr n = pack (map (\<lambda>(width, val). (width, val mod 2 ^ width)) ps) instr n"
proof (induction ps arbitrary: instr n)
  case Nil
  show ?case by simp
next
  case (Cons p ps)
  obtain width val where p: "p = (width, val)" by (cases p)
  have "(val mod 2 ^ width) AND (2 ^ width - 1) = val AND (2 ^ width - 1)"
    using take_bit_eq_mask [of width "take_bit width val"] take_bit_eq_mask [of width val]
    by (simp add: mask_eq_exp_minus_1 take_bit_eq_mod)
  then show ?case
    using Cons.IH by (simp add: p)
qed

lemma encode_range:
  assumes "encode op kw = Inr ws"
  shows "\<forall>w \<in> set ws. 0 \<le> w \<and> w < 2 ^ 32"
proof (cases "op = LOOP")
  case True
  from assms True obtain c j where h: "kw_count kw = Some c" "c < 2 ^ 12" "kw_jump kw = Some j"
    by (auto simp: encode_def Instruction_init_def width_defs split: option.splits if_splits)
  have "ws = [take_bit 3 7 OR push_bit 3 (take_bit 12 c) OR push_bit 15 (take_bit 17 j)]"
    using assms True encode_LOOP [OF h] by simp
  then show ?thesis
    using loop_word(4) [of 7 c j] by (simp only: in_range_iff) simp
next
  case nl: False
  show ?thesis
  proof (cases "op = NOOP")
    case True
    from assms True obtain t where h: "kw_timeslice kw = Some t" "t < 2 ^ 29"
      by (auto simp: encode_def Instruction_init_def width_defs split: option.splits if_splits)
    have "ws = [push_bit 3 (take_bit 29 t)]"
      using assms True encode_NOOP [OF h] by simp
    then show ?thesis
      using noop_word(3) [of t] by (simp only: in_range_iff) simp
  next
    case False
    with nl have d: "is_dfi op" by (simp add: is_dfi_iff)
    from assms nl False obtain t where h: "kw_timeslice kw = Some t" "t \<noteq> 0"
         "kw_address kw \<noteq> None \<or> op = REF"
      by (auto simp: encode_def Instruction_init_def width_defs split: option.splits if_splits)
    define b where "b = max (take_bit 5 t) 1"
    define a where "a = (case kw_address kw of None \<Rightarrow> 0 | Some a \<Rightarrow> a)"
    define w where "w = op_value op OR push_bit 3 (take_bit 5 b) OR push_bit 8 (take_bit 24 a)"
    define ns where "ns = (if b \<noteq> t then map (\<lambda>p. pack p 0 0) (noops_loop 0 (t - b)) else [])"
    have "encode op kw = Inr (w # ns)"
      using encode_DFI [OF d h] by (simp add: w_def ns_def b_def a_def)
    with assms have ws: "ws = w # ns"
      by simp
    have b: "1 \<le> b" "b \<le> 31"
      using base_timeslice_range [of t] by (simp_all add: b_def)
    have w: "0 \<le> w \<and> w < 2 ^ 32"
      using dfi_base_word_props(4,5) [OF d b, of a] by (simp add: w_def)
    have "\<forall>n \<in> set ns. 0 \<le> n \<and> n < 2 ^ 32"
    proof
      fix n assume "n \<in> set ns"
      then obtain p where p: "p \<in> set (noops_loop 0 (t - b))" "n = pack p 0 0"
        by (auto simp: ns_def split: if_splits)
      then obtain wt where wt: "p = [(3, 0), (29, wt)]" "1 \<le> wt" "wt \<le> 28"
        using noops_loop_shape [of 0 "t - b"] by blast
      have r: "0 \<le> wt" "wt < 2 ^ 29" using wt by simp_all
      show "0 \<le> n \<and> n < 2 ^ 32"
        using noop_word_props(3,4) [OF r] wt p(2) by simp
    qed
    with w ws show ?thesis by simp
  qed
qed

text \<open>
  Claim C10. Every word returned by \<open>encode_spec\<close> on a constructed instruction, by
  \<open>encode\<close>, or by \<open>encode_payload\<close> on constructed instructions lies in \<open>[0, 2^32)\<close>.
  Packing a field value is the same as packing its residue modulo \<open>2^width\<close>: a LOOP word
  is \<open>7 + 2^3 (count mod 2^12) + 2^15 (jump mod 2^17)\<close> and a one-word DFI word is
  \<open>op + 2^3 timeslice + 2^8 (address mod 2^24)\<close>, so an oversized jump or address is cut
  to its low bits, neither rejected nor carried into the neighbouring field.
\<close>

theorem C10_words_in_range:
  "(Instruction_init op kw = Inr spec \<longrightarrow> (\<forall>w \<in> set (encode_spec spec). 0 \<le> w \<and> w < 2 ^ 32))
 \<and> (encode op kw = Inr ws \<longrightarrow> (\<forall>w \<in> set ws. 0 \<le> w \<and> w < 2 ^ 32))
 \<and> ((\<forall>sp \<in> set payload. \<exists>op' kw'. Instruction_init op' kw' = Inr sp) \<longrightarrow>
      (\<forall>w \<in> set (encode_payload payload). 0 \<le> w \<and> w < 2 ^ 32))
 \<and> pack ps 0 0 = pack (map (\<lambda>(width, val). (width, val mod 2 ^ width)) ps) 0 0
 \<and> (kw_count kw = Some c \<and> c < 2 ^ 12 \<and> kw_jump kw = Some j \<longrightarrow>
      encode LOOP kw = Inr [7 + 2 ^ 3 * (c mod 2 ^ 12) + 2 ^ 15 * (j mod 2 ^ 17)])
 \<and> (is_dfi op \<and> kw_timeslice kw = Some t \<and> 1 \<le> t \<and> t \<le> 31 \<and> kw_address kw = Some a \<longrightarrow>
      encode op kw = Inr [op_value op + 2 ^ 3 * t + 2 ^ 8 * (a mod 2 ^ 24)])"
proof (intro conjI impI)
  assume "Instruction_init op kw = Inr spec"
  then have "encode op kw = Inr (encode_spec spec)"
    by (simp add: encode_def)
  then show "\<forall>w \<in> set (encode_spec spec). 0 \<le> w \<and> w < 2 ^ 32"
    by (rule encode_range)
next
  assume "encode op kw = Inr ws"
  then show "\<forall>w \<in> set ws. 0 \<le> w \<and> w < 2 ^ 32"
    by (rule encode_range)
next
  assume h: "\<forall>sp \<in> set payload. \<exists>op' kw'. Instruction_init op' kw' = Inr sp"
  show "\<forall>w \<in> set (encode_payload payload). 0 \<le> w \<and> w < 2 ^ 32"
  proof
    fix w assume "w \<in> set (encode_payload payload)"
    then obtain sp where sp: "sp \<in> set payload" "w \<in> set (encode_spec sp)"
      by (auto simp: encode_payload_def)
    with h obtain op' kw' where "Instruction_init op' kw' = Inr sp" by blast
    then have "encode op' kw' = Inr (encode_spec sp)"
      by (simp add: encode_def)
    from encode_range [OF this] sp(2) show "0 \<le> w \<and> w < 2 ^ 32" by blast
  qed
next
  show "pack ps 0 0 = pack (map (\<lambda>(width, val). (width, val mod 2 ^ width)) ps) 0 0"
    by (rule pack_mod)
next
  assume h: "kw_count kw = Some c \<and> c < 2 ^ 12 \<and> kw_jump kw = Some j"
  have "encode LOOP kw = Inr [take_bit 3 7 OR push_bit 3 (take_bit 12 c) OR push_bit (3 + 12) (take_bit 17 j)]"
    using h encode_LOOP [of kw c j] by simp
  then show "encode LOOP kw = Inr [7 + 2 ^ 3 * (c mod 2 ^ 12) + 2 ^ 15 * (j mod 2 ^ 17)]"
    by (simp only: or_plus3) simp
next
  assume h: "is_dfi op \<and> kw_timeslice kw = Some t \<and> 1 \<le> t \<and> t \<le> 31 \<and> kw_address kw = Some a"
  then have t: "take_bit 5 t = t" by (simp add: tb_id)
  have "encode op kw = Inr [take_bit 3 (op_value op) OR push_bit 3 (take_bit 5 t) OR push_bit (3 + 5) (take_bit 24 a)]"
    using h encode_DFI [of op kw t] t by (simp add: op_value_tb)
  then have "encode op kw = Inr [op_value op mod 2 ^ 3 + 2 ^ 3 * (t mod 2 ^ 5) + 2 ^ (3 + 5) * (a mod 2 ^ 24)]"
    by (simp only: or_plus3)
  moreover have "op_value op mod 2 ^ 3 = op_value op"
    using op_value_tb [of op] by (simp add: take_bit_eq_mod)
  moreover have "t mod 2 ^ 5 = t"
    using t by (simp add: take_bit_eq_mod)
  ultimately show "encode op kw = Inr [op_value op + 2 ^ 3 * t + 2 ^ 8 * (a mod 2 ^ 24)]"
    by simp
qed

theorem C10_words_in_range_witness:
  "Instruction_init ACT \<lparr>kw_count = Some 5, kw_jump = Some 131075, kw_timeslice = Some 4,
                         kw_address = Some 16777225\<rparr>
     = Inr \<lparr>i_op_code = ACT, i_parts = [(3, 4), (5, 4), (24, 16777225)], i_noops = None\<rparr>
   \<and> encode ACT \<lparr>kw_count = Some 5, kw_jump = Some 131075, kw_timeslice = Some 4,
                 kw_address = Some 16777225\<rparr> = Inr [2340]
   \<and> encode LOOP \<lparr>kw_count = Some 5, kw_jump = Some 131075, kw_timeslice = Some 4,
                  kw_address = Some 16777225\<rparr> = Inr [98351]
   \<and> list_all (\<lambda>w. 0 \<le> w \<and> w < 2 ^ 32)
        (encode_payload
          [\<lparr>i_op_code = ACT, i_parts = [(3, 4), (5, 4), (24, 16777225)], i_noops = None\<rparr>])"
proof -
  let ?kw = "\<lparr>kw_count = Some 5, kw_jump = Some 131075, kw_timeslice = Some 4,
                         kw_address = Some 16777225\<rparr>"
  let ?spec = "\<lparr>i_op_code = ACT, i_parts = [(3, 4), (5, 4), (24, 16777225)], i_noops = None\<rparr>"
  have h1: "Instruction_init ACT ?kw = Inr ?spec"
    by (simp add: Instruction_init_def width_defs)
  have h2: "encode ACT ?kw = Inr [2340]"
    by (simp add: encode_def h1 encode_spec_def)
  have h3: "\<forall>sp \<in> set [?spec]. \<exists>op' kw'. Instruction_init op' kw' = Inr sp"
    using h1 by auto
  show ?thesis
    using h1 h2 h3
      C10_words_in_range [of ACT ?kw ?spec "[2340]" "[?spec]" "[]" 5 131075 4 16777225]
    by (simp add: is_dfi_def list_all_iff)
qed

section \<open>Executor: leaving RUN\<close>

lemma stop_not_LOOP:
  "stop (Decoder w) \<Longrightarrow> op_code (Decoder w) \<noteq> word_of_int (op_value LOOP)"
  by (auto simp: Decoder_def Let_def)

lemma stop_iff:
  "stop (Decoder w) \<longleftrightarrow>
     op_code (Decoder w) = word_of_int (op_value NOOP) \<and> timeslice (Decoder w) = 0"
  by (simp add: Decoder_def Let_def)

text \<open>
  Claim C5. In RUN the next state is READY exactly when \<open>mem_addr = PIPELINE_DELAY - 1\<close>
  or \<open>stop\<close> holds, and the op code is not LOOP or \<open>loop_count = loop_counter\<close>; on that
  transition \<open>wants_dfi\<close> is dropped. A decoded \<open>stop\<close> always takes it, whatever the
  value of \<open>loop_counter\<close>.
\<close>

theorem C5_run_termination:
  assumes "fsm s = RUN"
  shows "(fsm (step mem start rdy s) = READY \<longleftrightarrow>
            (unat (mem_addr s) = PIPELINE_DELAY - 1 \<or> stop (Decoder (instruction s)))
            \<and> (op_code (Decoder (instruction s)) \<noteq> word_of_int (op_value LOOP)
               \<or> loop_count (Decoder (instruction s)) = loop_counter s))
       \<and> (fsm (step mem start rdy s) = READY \<longrightarrow> \<not> wants_dfi (step mem start rdy s))
       \<and> (stop (Decoder (instruction s)) \<longrightarrow>
            fsm (step mem start rdy s) = READY \<and> \<not> wants_dfi (step mem start rdy s))"
  using assms stop_not_LOOP [of "instruction s"]
  by (auto simp: step_def terminate_def Let_def)

theorem C5_run_termination_witness:
  "fsm (step (\<lambda>a. 0) False False
        \<lparr>fsm = RUN, program_counter = 5 :: 4 word, program_counter_old = 4, dat_r = 0,
         instruction = 0, loop_counter = 3, idle_counter = 0, wants_dfi = True\<rparr>) = READY
   \<and> \<not> wants_dfi (step (\<lambda>a. 0) False False
        \<lparr>fsm = RUN, program_counter = 5 :: 4 word, program_counter_old = 4, dat_r = 0,
         instruction = 0, loop_counter = 3, idle_counter = 0, wants_dfi = True\<rparr>)"
  using C5_run_termination [of
        "\<lparr>fsm = RUN, program_counter = 5 :: 4 word, program_counter_old = 4, dat_r = 0,
         instruction = 0, loop_counter = 3, idle_counter = 0, wants_dfi = True\<rparr>"
        "\<lambda>a. 0" False False]
  by (simp add: Decoder_def)

section \<open>Executor: timeslices\<close>

lemma step_IDLE:
  "fsm s = IDLE \<Longrightarrow>
   step mem st rd s =
     (if idle_counter s = 0
      then s\<lparr>dat_r := mem (program_counter_old s), fsm := RUN\<rparr>
      else s\<lparr>dat_r := mem (program_counter_old s), idle_counter := idle_counter s - 1\<rparr>)"
  by (simp add: step_def stall_def mem_addr_def reset_pc_def Let_def)

lemma idle_wait:
  "fsm s = IDLE \<Longrightarrow> unat (idle_counter s) = n \<Longrightarrow> length ins = Suc n \<Longrightarrow>
   cycles mem ins s = s\<lparr>fsm := RUN, idle_counter := 0, dat_r := mem (program_counter_old s)\<rparr>
   \<and> fsm_trace mem ins s = replicate (Suc n) IDLE
   \<and> run_trace mem ins s = []"
proof (induction n arbitrary: s ins)
  case 0
  then obtain i where ins: "ins = [i]"
    by (cases ins) auto
  from 0 have z: "idle_counter s = 0"
    by (simp add: unat_0_iff)
  show ?case
    using 0(1) z by (simp add: ins step_IDLE)
next
  case (Suc n)
  then obtain i ins' where ins: "ins = i # ins'" "length ins' = Suc n"
    by (cases ins) auto
  from Suc.prems(2) have nz: "idle_counter s \<noteq> 0"
    by (auto simp: unat_0_iff [symmetric])
  let ?s = "s\<lparr>dat_r := mem (program_counter_old s), idle_counter := idle_counter s - 1\<rparr>"
  have st: "step mem (fst i) (snd i) s = ?s"
    using Suc.prems(1) nz by (simp add: step_IDLE)
  have "unat (idle_counter ?s) = n"
    using Suc.prems(2) nz by (simp add: unat_minus_one)
  moreover have "fsm ?s = IDLE"
    using Suc.prems(1) by simp
  ultimately have "cycles mem ins' ?s =
       ?s\<lparr>fsm := RUN, idle_counter := 0, dat_r := mem (program_counter_old ?s)\<rparr>
     \<and> fsm_trace mem ins' ?s = replicate (Suc n) IDLE
     \<and> run_trace mem ins' ?s = []"
    using ins(2) by (intro Suc.IH)
  then show ?case
    using Suc.prems(1) by (simp add: ins st)
qed

lemma step_RUN_dfi:
  assumes "fsm s = RUN" "\<not> terminate s"
    and "op_code (Decoder (instruction s)) \<noteq> word_of_int (op_value LOOP)"
  shows "step mem st rd s =
     (let s1 = s\<lparr>program_counter := program_counter s + 1,
                  program_counter_old := program_counter s,
                  instruction := dat_r s,
                  dat_r := mem (program_counter s)\<rparr>
      in if timeslice (Decoder (instruction s)) = 0 \<or> timeslice (Decoder (instruction s)) = 1
         then s1
         else s1\<lparr>idle_counter := timeslice (Decoder (instruction s)) - 2, fsm := IDLE\<rparr>)"
  using assms
  by (simp add: step_def stall_def mem_addr_def next_addr_def jump_def Let_def)

lemma unat_ge2: "2 \<le> unat (t :: 29 word) \<Longrightarrow> unat (t - 2) = unat t - 2"
  by (subst unat_sub) (simp_all add: word_le_nat_alt)

text \<open>
  Claim C9. Let a non-NOOP, non-LOOP instruction be executed in RUN (the DFI branch is
  taken, \<open>dfi_exec\<close>). If its decoded timeslice is 0 or 1, the next state is RUN again and
  the instruction register already holds the next fetched word: the instruction took one
  cycle. If its decoded timeslice is \<open>T \<ge> 2\<close>, the executor loads \<open>idle_counter := T - 2\<close>,
  goes to IDLE, and over \<open>T\<close> cycles the state sequence is RUN followed by \<open>T - 1\<close> times
  IDLE, after which it is in RUN with the next fetched word: the instruction took \<open>T\<close>
  cycles.
\<close>

theorem C9_timeslice_occupancy:
  assumes "dfi_exec s"
      and "op_code (Decoder (instruction s)) \<noteq> word_of_int (op_value NOOP)"
  shows "(timeslice (Decoder (instruction s)) = 0 \<or> timeslice (Decoder (instruction s)) = 1 \<longrightarrow>
            fsm (step mem st rd s) = RUN \<and> instruction (step mem st rd s) = dat_r s)
       \<and> (2 \<le> unat (timeslice (Decoder (instruction s))) \<longrightarrow>
            fsm (step mem st rd s) = IDLE
            \<and> idle_counter (step mem st rd s) = timeslice (Decoder (instruction s)) - 2
            \<and> (\<forall>ins. length ins = unat (timeslice (Decoder (instruction s))) \<longrightarrow>
                  fsm_trace mem ins s
                    = RUN # replicate (unat (timeslice (Decoder (instruction s))) - 1) IDLE
                  \<and> fsm (cycles mem ins s) = RUN
                  \<and> instruction (cycles mem ins s) = dat_r s))"
proof -
  let ?t = "timeslice (Decoder (instruction s))"
  from assms(1) have run: "fsm s = RUN" "\<not> terminate s"
    "op_code (Decoder (instruction s)) \<noteq> word_of_int (op_value LOOP)"
    by (simp_all add: dfi_exec_def)
  note st = step_RUN_dfi [OF run]
  have a: "?t = 0 \<or> ?t = 1 \<longrightarrow>
            fsm (step mem st rd s) = RUN \<and> instruction (step mem st rd s) = dat_r s"
    using run(1) by (auto simp: st Let_def)
  have b: "fsm (step mem st rd s) = IDLE \<and> idle_counter (step mem st rd s) = ?t - 2
       \<and> (\<forall>ins. length ins = unat ?t \<longrightarrow>
              fsm_trace mem ins s = RUN # replicate (unat ?t - 1) IDLE
              \<and> fsm (cycles mem ins s) = RUN
              \<and> instruction (cycles mem ins s) = dat_r s)" if t: "2 \<le> unat ?t"
  proof -
    from t have ne: "?t \<noteq> 0" "?t \<noteq> 1" by auto
    have s1: "fsm (step mem st rd s) = IDLE" "idle_counter (step mem st rd s) = ?t - 2"
       "instruction (step mem st rd s) = dat_r s"
      using ne by (simp_all add: st Let_def)
    have "fsm_trace mem ins s = RUN # replicate (unat ?t - 1) IDLE
              \<and> fsm (cycles mem ins s) = RUN
              \<and> instruction (cycles mem ins s) = dat_r s" if l: "length ins = unat ?t" for ins
    proof -
      from l t obtain i ins' where ins: "ins = i # ins'" "length ins' = Suc (unat ?t - 2)"
        by (cases ins) auto
      have "unat (idle_counter (step mem (fst i) (snd i) s)) = unat ?t - 2"
        using ne t by (simp add: st Let_def unat_ge2)
      moreover have "fsm (step mem (fst i) (snd i) s) = IDLE"
        using ne by (simp add: st Let_def)
      ultimately have w: "cycles mem ins' (step mem (fst i) (snd i) s) =
           (step mem (fst i) (snd i) s)\<lparr>fsm := RUN, idle_counter := 0,
              dat_r := mem (program_counter_old (step mem (fst i) (snd i) s))\<rparr>
         \<and> fsm_trace mem ins' (step mem (fst i) (snd i) s) = replicate (Suc (unat ?t - 2)) IDLE
         \<and> run_trace mem ins' (step mem (fst i) (snd i) s) = []"
        using ins(2) by (intro idle_wait)
      have "instruction (step mem (fst i) (snd i) s) = dat_r s"
        using ne by (simp add: st Let_def)
      moreover have "Suc (unat ?t - 2) = unat ?t - 1"
        using t by simp
      ultimately show ?thesis
        using w run(1) by (simp add: ins)
    qed
    with s1 show ?thesis by blast
  qed
  from a b show ?thesis by blast
qed

theorem C9_timeslice_occupancy_witness:
  "dfi_exec \<lparr>fsm = RUN, program_counter = 5 :: 4 word, program_counter_old = 4, dat_r = 13,
             instruction = 36, loop_counter = 0, idle_counter = 0, wants_dfi = True\<rparr>
   \<and> fsm_trace (\<lambda>a. 0) [(False, False), (False, False), (False, False), (False, False)]
        \<lparr>fsm = RUN, program_counter = 5 :: 4 word, program_counter_old = 4, dat_r = 13,
         instruction = 36, loop_counter = 0, idle_counter = 0, wants_dfi = True\<rparr>
       = RUN # replicate 3 IDLE
   \<and> fsm (cycles (\<lambda>a. 0) [(False, False), (False, False), (False, False), (False, False)]
        \<lparr>fsm = RUN, program_counter = 5 :: 4 word, program_counter_old = 4, dat_r = 13,
         instruction = 36, loop_counter = 0, idle_counter = 0, wants_dfi = True\<rparr>) = RUN
   \<and> instruction (cycles (\<lambda>a. 0) [(False, False), (False, False), (False, False), (False, False)]
        \<lparr>fsm = RUN, program_counter = 5 :: 4 word, program_counter_old = 4, dat_r = 13,
         instruction = 36, loop_counter = 0, idle_counter = 0, wants_dfi = True\<rparr>) = 13"
proof -
  let ?s = "\<lparr>fsm = RUN, program_counter = 5 :: 4 word, program_counter_old = 4, dat_r = 13,
             instruction = 36, loop_counter = 0, idle_counter = 0, wants_dfi = True\<rparr>"
  let ?ins = "[(False, False), (False, False), (False, False), (False, False)]"
  have t: "timeslice (Decoder 36) = 4" "op_code (Decoder 36) = 4"
    by (simp_all add: Decoder_def Let_def width_defs)
  have h: "dfi_exec ?s"
    by (simp add: dfi_exec_def terminate_def mem_addr_def stall_def t PIPELINE_DELAY_def stop_iff)
  have n: "op_code (Decoder (instruction ?s)) \<noteq> word_of_int (op_value NOOP)"
    by (simp add: t)
  have two: "2 \<le> unat (timeslice (Decoder (instruction ?s)))"
    by (simp add: t)
  have len: "length ?ins = unat (timeslice (Decoder (instruction ?s)))"
    by (simp add: t)
  from C9_timeslice_occupancy [OF h n, of "\<lambda>a. 0" False False] two
  have "\<forall>ins. length ins = unat (timeslice (Decoder (instruction ?s))) \<longrightarrow>
          fsm_trace (\<lambda>a. 0) ins ?s
            = RUN # replicate (unat (timeslice (Decoder (instruction ?s))) - 1) IDLE
          \<and> fsm (cycles (\<lambda>a. 0) ins ?s) = RUN
          \<and> instruction (cycles (\<lambda>a. 0) ins ?s) = dat_r ?s"
    by blast
  with len have "fsm_trace (\<lambda>a. 0) ?ins ?s
            = RUN # replicate (unat (timeslice (Decoder (instruction ?s))) - 1) IDLE
          \<and> fsm (cycles (\<lambda>a. 0) ?ins ?s) = RUN
          \<and> instruction (cycles (\<lambda>a. 0) ?ins ?s) = dat_r ?s"
    by blast
  then show ?thesis
    using h by (simp add: t del: cycles.simps fsm_trace.simps)
qed

section \<open>Scratchpad cursor\<close>

lemma bit_length_bound: "n < 2 ^ bit_length n"
proof (induction n rule: bit_length.induct)
  case (1 n)
  show ?case
  proof (cases "n = 0")
    case True
    then show ?thesis by (simp add: bit_length.simps)
  next
    case False
    with 1 have "n div 2 < 2 ^ bit_length (n div 2)"
      by simp
    then have "n < 2 * 2 ^ bit_length (n div 2)"
      by linarith
    with False show ?thesis
      by (subst bit_length.simps) simp
  qed
qed

lemma bit_length_pow_minus_1: "bit_length (2 ^ k - 1) = k"
proof (induction k)
  case 0
  show ?case by (simp add: bit_length.simps)
next
  case (Suc k)
  have pos: "0 < (2 :: nat) ^ k"
    by simp
  have "(2 ^ Suc k - 1) div 2 = (2 ^ k - 1 :: nat)"
    by simp
  moreover from pos have "(2 ^ Suc k - 1 :: nat) \<noteq> 0"
    unfolding power_Suc by linarith
  ultimately show ?case
    using Suc by (subst bit_length.simps) simp
qed

lemma counter_width_pow_plus_1:
  assumes "0 < k"
  shows "counter_width (2 ^ k + 1) = k" and "counter_width (Suc (2 ^ k)) = k"
proof -
  from assms obtain j where j: "k = Suc j"
    by (cases k) simp_all
  have "0 < (2 :: nat) ^ j"
    by simp
  then have "0 < (2 :: nat) ^ k - 1"
    unfolding j power_Suc by linarith
  then have "bits_for (2 ^ k - 1) = k"
    using bit_length_pow_minus_1 [of k] by (simp add: bits_for_def)
  then show "counter_width (2 ^ k + 1) = k" and "counter_width (Suc (2 ^ k)) = k"
    by (simp_all add: counter_width_def)
qed

lemma counter_width_covers: "depth - 1 \<le> 2 ^ counter_width depth"
proof -
  have "depth - 1 - 1 < 2 ^ bits_for (depth - 1 - 1)"
    using bit_length_bound [of "depth - 1 - 1"] by (simp add: bits_for_def)
  then show ?thesis
    by (simp add: counter_width_def)
qed

text \<open>
  One cycle of the scratchpad under the executor's reset. The reset is asserted exactly
  in WAIT-DFI and clears cursor and flag. Without reset, a cycle with no registered write
  enable leaves both as they are; a cycle with one sets the flag and clears the cursor at
  \<open>depth - 1\<close>, and otherwise stores \<open>counter + 1\<close>, cut to the cursor's width.
\<close>

lemma scratchpad_step_cases:
  fixes s :: "'a::len word executor"
  shows "(scratchpad_reset s \<longleftrightarrow> fsm s = WAIT_DFI)
   \<and> (scratchpad_reset s \<longrightarrow>
        counter (scratchpad_step depth rep (scratchpad_reset s) phases sp) = 0
        \<and> \<not> overflow (scratchpad_step depth rep (scratchpad_reset s) phases sp))
   \<and> (\<not> scratchpad_reset s \<and> \<not> we_any sp \<longrightarrow>
        counter (scratchpad_step depth rep (scratchpad_reset s) phases sp) = counter sp
        \<and> overflow (scratchpad_step depth rep (scratchpad_reset s) phases sp) = overflow sp)
   \<and> (\<not> scratchpad_reset s \<and> we_any sp \<and> int (counter sp) \<noteq> int depth - 1 \<longrightarrow>
        counter (scratchpad_step depth rep (scratchpad_reset s) phases sp)
          = (counter sp + 1) mod 2 ^ counter_width depth
        \<and> overflow (scratchpad_step depth rep (scratchpad_reset s) phases sp) = overflow sp)
   \<and> (\<not> scratchpad_reset s \<and> we_any sp \<and> int (counter sp) = int depth - 1 \<longrightarrow>
        counter (scratchpad_step depth rep (scratchpad_reset s) phases sp) = 0
        \<and> overflow (scratchpad_step depth rep (scratchpad_reset s) phases sp))"
  by (simp add: scratchpad_step_def scratchpad_reset_def)

text \<open>
  Where the cursor's width covers the whole memory, \<open>depth \<le> 2 ^ counter_width depth\<close>
  (every depth that is not of the form \<open>2^k + 1\<close>), a write below \<open>depth - 1\<close> advances the
  cursor by exactly one and keeps it inside the memory.
\<close>

lemma cursor_advances_by_one:
  assumes "depth \<le> 2 ^ counter_width depth" and "counter sp < depth"
    and "we_any sp" and "int (counter sp) \<noteq> int depth - 1"
  shows "counter (scratchpad_step depth rep False phases sp) = counter sp + 1"
    and "counter (scratchpad_step depth rep False phases sp) < depth"
    and "overflow (scratchpad_step depth rep False phases sp) = overflow sp"
proof -
  from assms(2,4) have "counter sp + 1 < depth"
    by linarith
  with assms(1) have "(counter sp + 1) mod 2 ^ counter_width depth = counter sp + 1"
    by simp
  with assms(3,4) \<open>counter sp + 1 < depth\<close>
  show "counter (scratchpad_step depth rep False phases sp) = counter sp + 1"
    and "counter (scratchpad_step depth rep False phases sp) < depth"
    and "overflow (scratchpad_step depth rep False phases sp) = overflow sp"
    by (simp_all add: scratchpad_step_def)
qed

text \<open>The overflow flag is sticky over any run in which the executor is never in WAIT-DFI.\<close>

lemma system_cycles_overflow:
  "overflow (snd st) \<Longrightarrow> WAIT_DFI \<notin> set (fsm_trace mem (map fst ins) (fst st)) \<Longrightarrow>
   overflow (snd (system_cycles mem depth rep ins st))"
proof (induction ins arbitrary: st)
  case Nil
  then show ?case by simp
next
  case (Cons i ins)
  let ?st = "(step mem (fst (fst i)) (snd (fst i)) (fst st),
        scratchpad_step depth rep (scratchpad_reset (fst st)) (snd i) (snd st))"
  from Cons.prems have "fsm (fst st) \<noteq> WAIT_DFI" by auto
  with Cons.prems(1) have "overflow (snd ?st)"
    by (simp add: scratchpad_step_def scratchpad_reset_def)
  moreover from Cons.prems(2) have "WAIT_DFI \<notin> set (fsm_trace mem (map fst ins) (fst ?st))"
    by simp
  ultimately have "overflow (snd (system_cycles mem depth rep ins ?st))"
    by (rule Cons.IH)
  then show ?case by simp
qed

text \<open>
  For a depth of the form \<open>2^k + 1\<close> the cursor has \<open>k\<close> bits and stays below \<open>2^k\<close>, so
  it never equals \<open>depth - 1 = 2^k\<close>: a clear overflow flag stays clear on every cycle,
  and the cursor goes from \<open>2^k - 1\<close> to 0 by truncation.
\<close>

lemma overflow_never_set:
  assumes "0 < k" and "counter sp < 2 ^ k" and "\<not> overflow sp"
  shows "counter (scratchpad_step (2 ^ k + 1) rep reset phases sp) < 2 ^ k"
    and "\<not> overflow (scratchpad_step (2 ^ k + 1) rep reset phases sp)"
    and "\<not> reset \<Longrightarrow> we_any sp \<Longrightarrow> counter sp = 2 ^ k - 1 \<Longrightarrow>
           counter (scratchpad_step (2 ^ k + 1) rep reset phases sp) = 0"
  using assms
  by (auto simp: scratchpad_step_def counter_width_pow_plus_1)

text \<open>
  Claim C7, at a scratchpad memory of depth 9. The cursor is declared for the values below
  8 and has 3 bits. At cursor 7 a write makes the cursor 0 and leaves the overflow flag
  clear; the claim has the cursor advance to 8 and wrap, with the flag set, only from
  there. Started from the cleared registers with read data valid on every cycle, the
  cursor is back at 0 after nine cycles, with the flag still clear.
\<close>

theorem C7_cursor_wraps_without_overflow:
  "counter_width 9 = 3
   \<and> counter (scratchpad_step 9 1 False [(5, True)]
        \<lparr>counter = 7, overflow = False, wr_adr = 6, wr_dat_w = [5], wr_we = [True]\<rparr>) = 0
   \<and> \<not> overflow (scratchpad_step 9 1 False [(5, True)]
        \<lparr>counter = 7, overflow = False, wr_adr = 6, wr_dat_w = [5], wr_we = [True]\<rparr>)
   \<and> map (\<lambda>n. (counter (snd (system_cycles (\<lambda>a. 0) 9 1
                    (replicate n ((False, False), [(5, True)]))
                    (power_on, scratchpad_cleared))),
                overflow (snd (system_cycles (\<lambda>a. 0) 9 1
                    (replicate n ((False, False), [(5, True)]))
                    (power_on, scratchpad_cleared)))))
        [0, 1, 2, 3, 4, 5, 6, 7, 8, 9]
       = [(0, False), (0, False), (1, False), (2, False), (3, False), (4, False),
          (5, False), (6, False), (7, False), (0, False)]"
  by code_simp

section \<open>Bus switch\<close>

lemma refresh_matches_word:
  "refresh_matches at sw \<longleftrightarrow> at = 0 \<or> at = refresh_counter sw + 1"
proof (cases "at = 0")
  case True
  then show ?thesis by (simp add: refresh_matches_def)
next
  case False
  have "uint at = uint (refresh_counter sw) + 1 \<longleftrightarrow> at = refresh_counter sw + 1"
  proof
    assume "uint at = uint (refresh_counter sw) + 1"
    then have "word_of_int (uint at) = (word_of_int (uint (refresh_counter sw) + 1) :: 64 word)"
      by simp
    then show "at = refresh_counter sw + 1"
      by simp
  next
    assume h: "at = refresh_counter sw + 1"
    with False have "1 + refresh_counter sw \<noteq> 0"
      by (simp only: add.commute [of 1]) simp
    then have "unat (1 + refresh_counter sw) = Suc (unat (refresh_counter sw))"
      by (rule unatSuc)
    then have "int (unat at) = int (unat (refresh_counter sw)) + 1"
      unfolding h add.commute [of _ 1] by (simp only: of_nat_Suc)
    then show "uint at = uint (refresh_counter sw) + 1"
      by (simp only: uint_nat)
  qed
  with False show ?thesis by (simp add: refresh_matches_def)
qed

text \<open>
  Claim C8. From MEMORY-CONTROLLER the switch goes to PAYLOAD-EXECUTION exactly when
  \<open>wants_dfi\<close> is asserted and, if refresh gating is enabled, a refresh command is on the
  bus in that cycle and \<open>at_refresh = 0\<close> or \<open>at_refresh = refresh_counter + 1\<close>. From
  PAYLOAD-EXECUTION it goes back exactly when \<open>wants_dfi\<close> is deasserted, and the refresher
  reset is high in exactly those cycles.
\<close>

theorem C8_bus_switch:
  "(sw_fsm sw = MEMORY_CONTROLLER \<longrightarrow>
      (sw_fsm (switch_step memtype with_refresh wants at ph sw) = PAYLOAD_EXECUTION \<longleftrightarrow>
         wants \<and> (with_refresh \<longrightarrow>
                    refresh memtype ph \<and> (at = 0 \<or> at = refresh_counter sw + 1)))
      \<and> \<not> refresher_reset wants sw \<and> \<not> dfi_ready sw)
 \<and> (sw_fsm sw = PAYLOAD_EXECUTION \<longrightarrow>
      (sw_fsm (switch_step memtype with_refresh wants at ph sw) = MEMORY_CONTROLLER \<longleftrightarrow> \<not> wants)
      \<and> (refresher_reset wants sw \<longleftrightarrow> \<not> wants) \<and> dfi_ready sw)"
  by (auto simp: switch_step_def refresher_reset_def dfi_ready_def refresh_matches_word)

theorem C8_bus_switch_witness:
  "sw_fsm (switch_step [] True True 7
      \<lparr>cs_n = 0 :: 1 word, cas_n = False, ras_n = False, we_n = True, ph_address = 0 :: 16 word\<rparr>
      \<lparr>sw_fsm = MEMORY_CONTROLLER, refresh_counter = 6\<rparr>) = PAYLOAD_EXECUTION
   \<and> sw_fsm (switch_step [] True False 7
      \<lparr>cs_n = 0 :: 1 word, cas_n = False, ras_n = False, we_n = True, ph_address = 0 :: 16 word\<rparr>
      \<lparr>sw_fsm = PAYLOAD_EXECUTION, refresh_counter = 6\<rparr>) = MEMORY_CONTROLLER
   \<and> refresher_reset False \<lparr>sw_fsm = PAYLOAD_EXECUTION, refresh_counter = 6\<rparr>"
  using C8_bus_switch [of "\<lparr>sw_fsm = MEMORY_CONTROLLER, refresh_counter = 6\<rparr>" "[]" True True 7
      "\<lparr>cs_n = 0 :: 1 word, cas_n = False, ras_n = False, we_n = True, ph_address = 0 :: 16 word\<rparr>"]
    C8_bus_switch [of "\<lparr>sw_fsm = PAYLOAD_EXECUTION, refresh_counter = 6\<rparr>" "[]" True False 7
      "\<lparr>cs_n = 0 :: 1 word, cas_n = False, ras_n = False, we_n = True, ph_address = 0 :: 16 word\<rparr>"]
  by (simp add: refresh_def)

section \<open>Executor: loops\<close>

lemma cycles_append: "cycles mem (xs @ ys) s = cycles mem ys (cycles mem xs s)"
  by (induction xs arbitrary: s) simp_all

lemma run_trace_append:
  "run_trace mem (xs @ ys) s = run_trace mem xs s @ run_trace mem ys (cycles mem xs s)"
  by (induction xs arbitrary: s) simp_all

lemma unat_eq_1_iff: "unat (x :: 'a::len word) = Suc 0 \<longleftrightarrow> x = 1"
  by (simp add: word_unat_eq_iff)

lemma sentinel_iff: "unat (a + 2 :: 'a::len word) = Suc 0 \<longleftrightarrow> a = - 1"
proof -
  have "a + 2 = 1 \<longleftrightarrow> a = 1 - 2"
    by (rule eq_diff_eq [symmetric])
  then show ?thesis
    by (simp add: unat_eq_1_iff)
qed

lemma timeslice_ge2: "\<not> (t = 0 \<or> t = 1) \<longleftrightarrow> 2 \<le> unat (t :: 29 word)"
proof -
  have "t = 0 \<longleftrightarrow> unat t = 0" "t = 1 \<longleftrightarrow> unat t = 1"
    by (simp_all add: word_unat_eq_iff)
  then show ?thesis by arith
qed

lemma exec_plain:
  assumes f: "fetched mem a s"
    and op: "op_code (Decoder (mem a)) \<noteq> word_of_int (op_value LOOP)"
    and ns: "\<not> stop (Decoder (mem a))"
    and na: "a \<noteq> - 1"
    and len: "length ins = occupancy (mem a)"
  shows "fetched mem (a + 1) (cycles mem ins s)
       \<and> loop_counter (cycles mem ins s) = loop_counter s
       \<and> run_trace mem ins s = [mem a]"
proof -
  let ?t = "timeslice (Decoder (mem a))"
  from f have s: "fsm s = RUN" "instruction s = mem a" "dat_r s = mem (a + 1)"
      "program_counter s = a + 2" "program_counter_old s = a + 1"
    by (simp_all add: fetched_def)
  have ma: "mem_addr s = a + 2"
    using s by (simp add: mem_addr_def stall_def)
  have nt: "\<not> terminate s"
    using ns na by (simp add: terminate_def Let_def ma s sentinel_iff PIPELINE_DELAY_def)
  have op': "op_code (Decoder (instruction s)) \<noteq> word_of_int (op_value LOOP)"
    using op s by simp
  note st = step_RUN_dfi [OF s(1) nt op', unfolded s Let_def]
  have a3: "a + 2 + 1 = a + 1 + 2" "a + 1 + 1 = a + 2"
    by simp_all
  show ?thesis
  proof (cases "?t = 0 \<or> ?t = 1")
    case True
    with len obtain i where ins: "ins = [i]"
      by (cases ins) (auto simp: occupancy_def Let_def)
    show ?thesis
      using True s(1,2) by (simp add: ins st fetched_def a3)
  next
    case False
    then have t2: "2 \<le> unat ?t"
      by (simp only: timeslice_ge2)
    with len False obtain i ins' where ins: "ins = i # ins'" "length ins' = Suc (unat ?t - 2)"
      by (cases ins) (auto simp: occupancy_def Let_def)
    let ?s1 = "step mem (fst i) (snd i) s"
    have s1: "fsm ?s1 = IDLE" "unat (idle_counter ?s1) = unat ?t - 2"
      "program_counter ?s1 = a + 1 + 2" "program_counter_old ?s1 = a + 2"
      "instruction ?s1 = mem (a + 1)" "loop_counter ?s1 = loop_counter s"
      using False t2 by (simp_all add: st unat_ge2 a3)
    from idle_wait [OF s1(1,2) ins(2), of mem]
    have w: "cycles mem ins' ?s1 =
           ?s1\<lparr>fsm := RUN, idle_counter := 0, dat_r := mem (program_counter_old ?s1)\<rparr>"
       "run_trace mem ins' ?s1 = []"
      by simp_all
    show ?thesis
      using s(1,2) s1 by (simp add: ins w fetched_def a3)
  qed
qed


lemma next_addr_jump:
  "jump s \<Longrightarrow> next_addr s = program_counter s - ucast (jump_offset s) - 2"
  by (simp add: next_addr_def PIPELINE_DELAY_def)

lemma loop_branch:
  assumes s: "fsm s = RUN" "instruction s = mem L" "program_counter s = L + 2"
    and op: "op_code (Decoder (mem L)) = word_of_int (op_value LOOP)"
    and ne: "loop_counter s \<noteq> loop_count (Decoder (mem L))"
    and len: "length ins = 3"
  shows "fetched mem (L - ucast (loop_jump (Decoder (mem L)))) (cycles mem ins s)
       \<and> loop_counter (cycles mem ins s) = loop_counter s + 1
       \<and> run_trace mem ins s = [mem L]
       \<and> jump s
       \<and> next_addr s = program_counter s - ucast (loop_jump (Decoder (mem L))) - 2"
proof -
  from len obtain i1 i2 i3 where ins: "ins = [i1, i2, i3]"
    by (cases ins; cases "tl ins"; cases "tl (tl ins)") auto
  let ?tgt = "L - ucast (loop_jump (Decoder (mem L)))"
  have nt: "\<not> terminate s"
    using op ne by (auto simp: terminate_def Let_def s)
  have j: "jump s"
    using op ne nt by (simp add: jump_def Let_def s)
  have na: "next_addr s = ?tgt"
    using next_addr_jump [OF j] by (simp add: jump_offset_def s)
  let ?s1 = "step mem (fst i1) (snd i1) s"
  have s1: "fsm ?s1 = BUBBLE" "idle_counter ?s1 = 1" "program_counter ?s1 = ?tgt"
      "loop_counter ?s1 = loop_counter s + 1"
    using nt op ne na by (simp_all add: step_def Let_def s stall_def PIPELINE_DELAY_def)
  let ?s2 = "step mem (fst i2) (snd i2) ?s1"
  have nj1: "\<not> jump ?s1"
    by (simp add: jump_def s1 Let_def)
  have s2: "fsm ?s2 = BUBBLE" "idle_counter ?s2 = 0" "program_counter ?s2 = ?tgt + 1"
      "program_counter_old ?s2 = ?tgt" "dat_r ?s2 = mem ?tgt"
      "loop_counter ?s2 = loop_counter s + 1"
    using nj1 by (simp_all add: step_def [of mem _ _ ?s1] Let_def s1 stall_def next_addr_def mem_addr_def)
  let ?s3 = "step mem (fst i3) (snd i3) ?s2"
  have nj2: "\<not> jump ?s2"
    by (simp add: jump_def s2 Let_def)
  have s3: "fsm ?s3 = RUN" "program_counter ?s3 = ?tgt + 2"
      "program_counter_old ?s3 = ?tgt + 1" "dat_r ?s3 = mem (?tgt + 1)"
      "instruction ?s3 = mem ?tgt" "loop_counter ?s3 = loop_counter s + 1"
    using nj2 by (simp_all add: step_def [of mem _ _ ?s2] Let_def s2 stall_def next_addr_def mem_addr_def)
  have "fetched mem ?tgt ?s3"
    using s3 by (simp add: fetched_def)
  moreover have "run_trace mem ins s = [mem L]"
    using s(1,2) s1(1) s2(1) by (simp add: ins)
  ultimately show ?thesis
    using s3(6) j na s(3) by (simp add: ins)
qed

lemma loop_fall:
  assumes f: "fetched mem L s"
    and op: "op_code (Decoder (mem L)) = word_of_int (op_value LOOP)"
    and eq: "loop_counter s = loop_count (Decoder (mem L))"
    and na: "L \<noteq> - 1"
  shows "fetched mem (L + 1) (step mem st rd s)
       \<and> loop_counter (step mem st rd s) = 0
       \<and> \<not> jump s"
proof -
  from f have s: "fsm s = RUN" "instruction s = mem L" "dat_r s = mem (L + 1)"
      "program_counter s = L + 2" "program_counter_old s = L + 1"
    by (simp_all add: fetched_def)
  have ma: "mem_addr s = L + 2"
    using s by (simp add: mem_addr_def stall_def)
  have ns: "\<not> stop (Decoder (mem L))"
    using op stop_not_LOOP [of "mem L"] by blast
  have nt: "\<not> terminate s"
    using ns na by (simp add: terminate_def Let_def ma s sentinel_iff PIPELINE_DELAY_def)
  have nj: "\<not> jump s"
    using eq by (simp add: jump_def Let_def s)
  have a3: "L + 2 + 1 = L + 1 + 2" "L + 1 + 1 = L + 2"
    by simp_all
  show ?thesis
    using nt op eq nj
    by (simp add: step_def Let_def s stall_def next_addr_def ma fetched_def a3)
qed


lemma body_addr_ne:
  fixes L :: "'a::len word"
  assumes "i < j" "j \<le> unat L"
  shows "L - of_nat j + of_nat i \<noteq> - 1"
proof
  assume h: "L - of_nat j + of_nat i = - 1"
  define d where "d = j - i"
  have d: "0 < d" "d \<le> unat L"
    using assms by (simp_all add: d_def)
  have e: "L - of_nat j + of_nat i = L - of_nat d"
    using assms(1) by (simp add: d_def)
  have "d < 2 ^ LENGTH('a)"
    by (rule le_less_trans [OF d(2) unsigned_less])
  then have ud: "unat (of_nat d :: 'a word) = d"
    by (simp add: unat_of_nat)
  then have "(of_nat d :: 'a word) \<le> L"
    using d by (simp add: word_le_nat_alt)
  then have "unat (L - of_nat d) = unat L - d"
    using ud by (simp add: unat_sub)
  then have "unat (L - of_nat d) < unat L"
    using d by simp
  then have "unat (- 1 :: 'a word) < unat L"
    using h e by simp
  moreover have "unat L \<le> unat (- 1 :: 'a word)"
    using word_n1_ge [of L] by (simp only: word_le_nat_alt)
  ultimately show False
    by simp
qed

lemma body_exec:
  assumes "fetched mem tgt s"
    and "\<forall>i<k. op_code (Decoder (mem (tgt + of_nat i))) \<noteq> word_of_int (op_value LOOP)
              \<and> \<not> stop (Decoder (mem (tgt + of_nat i))) \<and> tgt + of_nat i \<noteq> - 1"
    and "length ins = sum_list (map (\<lambda>i. occupancy (mem (tgt + of_nat i))) [0..<k])"
  shows "fetched mem (tgt + of_nat k) (cycles mem ins s)
       \<and> loop_counter (cycles mem ins s) = loop_counter s
       \<and> run_trace mem ins s = map (\<lambda>i. mem (tgt + of_nat i)) [0..<k]"
  using assms
proof (induction k arbitrary: ins)
  case 0
  then show ?case by simp
next
  case (Suc k)
  let ?m = "sum_list (map (\<lambda>i. occupancy (mem (tgt + of_nat i))) [0..<k])"
  let ?xs = "take ?m ins" and ?ys = "drop ?m ins"
  let ?a = "tgt + of_nat k"
  from Suc.prems(3) have l: "length ?xs = ?m" "length ?ys = occupancy (mem ?a)"
    by simp_all
  from Suc.prems(2) have b: "\<forall>i<k. op_code (Decoder (mem (tgt + of_nat i))) \<noteq> word_of_int (op_value LOOP)
              \<and> \<not> stop (Decoder (mem (tgt + of_nat i))) \<and> tgt + of_nat i \<noteq> - 1"
    by simp
  from Suc.IH [OF Suc.prems(1) b l(1)]
  have ih: "fetched mem ?a (cycles mem ?xs s)"
      "loop_counter (cycles mem ?xs s) = loop_counter s"
      "run_trace mem ?xs s = map (\<lambda>i. mem (tgt + of_nat i)) [0..<k]"
    by simp_all
  from Suc.prems(2) have c: "op_code (Decoder (mem ?a)) \<noteq> word_of_int (op_value LOOP)"
      "\<not> stop (Decoder (mem ?a))" "?a \<noteq> - 1"
    by simp_all
  from exec_plain [OF ih(1) c l(2)]
  have e: "fetched mem (?a + 1) (cycles mem ?ys (cycles mem ?xs s))"
      "loop_counter (cycles mem ?ys (cycles mem ?xs s)) = loop_counter (cycles mem ?xs s)"
      "run_trace mem ?ys (cycles mem ?xs s) = [mem ?a]"
    by simp_all
  have ins: "ins = ?xs @ ?ys"
    by simp
  have a1: "?a + 1 = tgt + of_nat (Suc k)"
    by simp
  have "cycles mem ins s = cycles mem ?ys (cycles mem ?xs s)"
    by (subst ins) (rule cycles_append)
  moreover have "run_trace mem ins s = run_trace mem ?xs s @ run_trace mem ?ys (cycles mem ?xs s)"
    by (subst ins) (rule run_trace_append)
  ultimately show ?case
    using e ih(2,3) unfolding a1 by simp
qed

lemma iteration:
  fixes L :: "'a::len word"
  assumes f: "fetched mem L s"
    and op: "op_code (Decoder (mem L)) = word_of_int (op_value LOOP)"
    and ne: "loop_counter s \<noteq> loop_count (Decoder (mem L))"
    and j: "j = unat (loop_jump (Decoder (mem L)))" "j \<le> unat L"
    and body: "\<forall>w \<in> set (loop_body mem L j).
                 op_code (Decoder w) \<noteq> word_of_int (op_value LOOP) \<and> \<not> stop (Decoder w)"
    and len: "length ins = 3 + sum_list (map occupancy (loop_body mem L j))"
  shows "fetched mem L (cycles mem ins s)
       \<and> loop_counter (cycles mem ins s) = loop_counter s + 1
       \<and> run_trace mem ins s = mem L # loop_body mem L j"
proof -
  let ?tgt = "L - of_nat j"
  let ?xs = "take 3 ins" and ?ys = "drop 3 ins"
  have uj: "(ucast (loop_jump (Decoder (mem L))) :: 'a word) = of_nat j"
    by (simp add: j(1))
  from f have s: "fsm s = RUN" "instruction s = mem L" "program_counter s = L + 2"
    by (simp_all add: fetched_def)
  have l: "length ?xs = 3"
    "length ?ys = sum_list (map (\<lambda>i. occupancy (mem (?tgt + of_nat i))) [0..<j])"
    using len by (simp_all add: loop_body_def comp_def)
  from loop_branch [where s = s and mem = mem and L = L and ins = "take 3 ins", OF s op ne l(1)]
  have br: "fetched mem ?tgt (cycles mem ?xs s)"
      "loop_counter (cycles mem ?xs s) = loop_counter s + 1"
      "run_trace mem ?xs s = [mem L]"
    unfolding uj by simp_all
  have b: "\<forall>i<j. op_code (Decoder (mem (?tgt + of_nat i))) \<noteq> word_of_int (op_value LOOP)
              \<and> \<not> stop (Decoder (mem (?tgt + of_nat i))) \<and> ?tgt + of_nat i \<noteq> - 1"
    using body body_addr_ne [OF _ j(2)] by (auto simp: loop_body_def)
  from body_exec [OF br(1) b l(2)]
  have ex: "fetched mem (?tgt + of_nat j) (cycles mem ?ys (cycles mem ?xs s))"
      "loop_counter (cycles mem ?ys (cycles mem ?xs s)) = loop_counter (cycles mem ?xs s)"
      "run_trace mem ?ys (cycles mem ?xs s) = map (\<lambda>i. mem (?tgt + of_nat i)) [0..<j]"
    by simp_all
  have ins: "ins = ?xs @ ?ys"
    by simp
  have tj: "?tgt + of_nat j = L"
    by simp
  have "cycles mem ins s = cycles mem ?ys (cycles mem ?xs s)"
    by (subst ins) (rule cycles_append)
  moreover have "run_trace mem ins s = run_trace mem ?xs s @ run_trace mem ?ys (cycles mem ?xs s)"
    by (subst ins) (rule run_trace_append)
  ultimately show ?thesis
    using ex br(2,3) unfolding tj by (simp add: loop_body_def)
qed

lemma loop_total:
  fixes L :: "'a::len word"
  assumes "fetched mem L s"
    and op: "op_code (Decoder (mem L)) = word_of_int (op_value LOOP)"
    and "unat (loop_count (Decoder (mem L))) = unat (loop_counter s) + m"
    and j: "j = unat (loop_jump (Decoder (mem L)))" "j \<le> unat L"
    and na: "L \<noteq> - 1"
    and body: "\<forall>w \<in> set (loop_body mem L j).
                 op_code (Decoder w) \<noteq> word_of_int (op_value LOOP) \<and> \<not> stop (Decoder w)"
    and "length ins = m * (3 + sum_list (map occupancy (loop_body mem L j))) + 1"
  shows "fetched mem (L + 1) (cycles mem ins s)
       \<and> loop_counter (cycles mem ins s) = 0
       \<and> run_trace mem ins s
           = concat (replicate m (mem L # loop_body mem L j)) @ [mem L]"
  using assms(1,3,8)
proof (induction m arbitrary: s ins)
  case 0
  then obtain i where ins: "ins = [i]"
    by (cases ins) auto
  from 0(2) have eq: "loop_counter s = loop_count (Decoder (mem L))"
    by (simp add: word_unat_eq_iff)
  from 0(1) have "fsm s = RUN" "instruction s = mem L"
    by (simp_all add: fetched_def)
  then show ?case
    using loop_fall [OF 0(1) op eq na, of "fst i" "snd i"] by (simp add: ins)
next
  case (Suc m)
  let ?n = "3 + sum_list (map occupancy (loop_body mem L j))"
  let ?xs = "take ?n ins" and ?ys = "drop ?n ins"
  from Suc.prems(3) have l: "length ?xs = ?n" "length ?ys = m * ?n + 1"
    by simp_all
  from Suc.prems(2) have lt: "unat (loop_counter s) < unat (loop_count (Decoder (mem L)))"
    by simp
  then have ne: "loop_counter s \<noteq> loop_count (Decoder (mem L))"
    by auto
  from iteration [OF Suc.prems(1) op ne j body l(1)]
  have it: "fetched mem L (cycles mem ?xs s)"
      "loop_counter (cycles mem ?xs s) = loop_counter s + 1"
      "run_trace mem ?xs s = mem L # loop_body mem L j"
    by simp_all
  have "unat (loop_count (Decoder (mem L))) < 2 ^ LENGTH(12)"
    by (rule unsigned_less)
  with lt have "unat (loop_counter s) + unat (1 :: 12 word) < 2 ^ LENGTH(12)"
    by simp
  then have "unat (loop_counter s + 1) = unat (loop_counter s) + 1"
    by (simp add: unat_add_lem [THEN iffD1])
  with Suc.prems(2) it(2)
  have c: "unat (loop_count (Decoder (mem L))) = unat (loop_counter (cycles mem ?xs s)) + m"
    by simp
  from Suc.IH [OF it(1) c l(2)]
  have ih: "fetched mem (L + 1) (cycles mem ?ys (cycles mem ?xs s))"
      "loop_counter (cycles mem ?ys (cycles mem ?xs s)) = 0"
      "run_trace mem ?ys (cycles mem ?xs s)
         = concat (replicate m (mem L # loop_body mem L j)) @ [mem L]"
    by simp_all
  have ins: "ins = ?xs @ ?ys"
    by simp
  have "cycles mem ins s = cycles mem ?ys (cycles mem ?xs s)"
    by (subst ins) (rule cycles_append)
  moreover have "run_trace mem ins s = run_trace mem ?xs s @ run_trace mem ?ys (cycles mem ?xs s)"
    by (subst ins) (rule run_trace_append)
  ultimately show ?case
    using ih it(3) by simp
qed


lemma concat_loop_shift:
  "body @ concat (replicate n (l # body)) @ [l] = concat (replicate (Suc n) (body @ [l]))"
  by (induction n) simp_all

text \<open>
  The pipeline state \<open>fetched\<close> is the one in which RUN is first entered: from READY, a
  \<open>start\<close> strobe and a \<open>dfi_ready\<close> in WAIT-DFI lead through the two BUBBLE cycles to RUN
  with the word of address 0 in the instruction register.
\<close>

lemma fetched_after_start:
  assumes "fsm s = READY"
  shows "fetched mem 0 (cycles mem [(True, r1), (s2, True), i3, i4] s)
       \<and> loop_counter (cycles mem [(True, r1), (s2, True), i3, i4] s) = loop_counter s
       \<and> run_trace mem [(True, r1), (s2, True), i3, i4] s = []"
proof -
  let ?s1 = "step mem True r1 s"
  have s1: "fsm ?s1 = WAIT_DFI" "program_counter ?s1 = 0" "program_counter_old ?s1 = 0"
      "loop_counter ?s1 = loop_counter s"
    using assms by (simp_all add: step_def Let_def stall_def reset_pc_def)
  let ?s2 = "step mem s2 True ?s1"
  have s2: "fsm ?s2 = BUBBLE" "idle_counter ?s2 = 1" "program_counter ?s2 = 0"
      "program_counter_old ?s2 = 0" "dat_r ?s2 = mem 0" "loop_counter ?s2 = loop_counter s"
    by (simp_all add: step_def [of mem _ _ ?s1] Let_def s1 stall_def reset_pc_def mem_addr_def
        PIPELINE_DELAY_def)
  let ?s3 = "step mem (fst i3) (snd i3) ?s2"
  have nj2: "\<not> jump ?s2"
    by (simp add: jump_def s2 Let_def)
  have s3: "fsm ?s3 = BUBBLE" "idle_counter ?s3 = 0" "program_counter ?s3 = 1"
      "program_counter_old ?s3 = 0" "dat_r ?s3 = mem 0" "loop_counter ?s3 = loop_counter s"
    using nj2
    by (simp_all add: step_def [of mem _ _ ?s2] Let_def s2 stall_def next_addr_def mem_addr_def)
  let ?s4 = "step mem (fst i4) (snd i4) ?s3"
  have nj3: "\<not> jump ?s3"
    by (simp add: jump_def s3 Let_def)
  have s4: "fsm ?s4 = RUN" "program_counter ?s4 = 2" "program_counter_old ?s4 = 1"
      "dat_r ?s4 = mem 1" "instruction ?s4 = mem 0" "loop_counter ?s4 = loop_counter s"
    using nj3
    by (simp_all add: step_def [of mem _ _ ?s3] Let_def s3 stall_def next_addr_def mem_addr_def)
  show ?thesis
    using assms s1(1) s2(1) s3(1) s4 by (simp add: fetched_def)
qed

lemma example_decoded:
  "op_code (Decoder 32783) = 7" "loop_count (Decoder 32783) = 1" "loop_jump (Decoder 32783) = 1"
  "op_code (Decoder 13) = 5" "timeslice (Decoder 13) = 1" "\<not> stop (Decoder 13)"
  "op_code (Decoder 12) = 4" "timeslice (Decoder 12) = 1" "\<not> stop (Decoder 12)"
  "stop (Decoder 0)" "op_code (Decoder 0) = 0"
  by (simp_all add: Decoder_def Let_def width_defs)

text \<open>
  Claim C4, amended. Let a LOOP word with count \<open>N\<close> and jump \<open>J\<close> sit at address \<open>L\<close>,
  not the last address of the payload memory, with \<open>J \<le> L\<close>, and let none of the \<open>J\<close>
  words immediately before it be a LOOP or a STOP. When the LOOP is reached in RUN with
  \<open>loop_counter = 0\<close>, the words met by RUN from then on are \<open>N\<close> times the LOOP followed
  by the body of \<open>J\<close> words, and then the LOOP once more, after which the executor is in
  RUN at address \<open>L + 1\<close> with \<open>loop_counter = 0\<close>. For \<open>N \<noteq> 0\<close> the branch is taken with
  \<open>next_addr = pc - J - 2 = L - J\<close>; for \<open>N = 0\<close> no branch is taken and the next cycle is
  in RUN at \<open>L + 1\<close>. Counted from the first word of the body, with \<open>loop_counter = 0\<close>
  there, RUN meets the body followed by the LOOP exactly \<open>N + 1\<close> times.
\<close>

theorem C4_loop_repeats_body:
  fixes mem :: "'a::len word \<Rightarrow> 32 word" and L :: "'a word"
  defines "N \<equiv> unat (loop_count (Decoder (mem L)))"
      and "J \<equiv> unat (loop_jump (Decoder (mem L)))"
  defines "body \<equiv> loop_body mem L J"
  assumes op: "op_code (Decoder (mem L)) = word_of_int (op_value LOOP)"
    and j: "J \<le> unat L"
    and na: "L \<noteq> - 1"
    and body: "\<forall>w \<in> set body.
                 op_code (Decoder w) \<noteq> word_of_int (op_value LOOP) \<and> \<not> stop (Decoder w)"
    and f: "fetched mem L s" and c: "loop_counter s = 0"
    and len: "length ins = N * (3 + sum_list (map occupancy body)) + 1"
  shows "run_trace mem ins s = concat (replicate N (mem L # body)) @ [mem L]
       \<and> fetched mem (L + 1) (cycles mem ins s)
       \<and> loop_counter (cycles mem ins s) = 0
       \<and> (N \<noteq> 0 \<longrightarrow> jump s
             \<and> next_addr s = program_counter s - ucast (loop_jump (Decoder (mem L))) - 2
             \<and> next_addr s = L - of_nat J)
       \<and> (N = 0 \<longrightarrow> \<not> jump s \<and> fetched mem (L + 1) (step mem st rd s))
       \<and> (\<forall>s0 ins0. fetched mem (L - of_nat J) s0 \<and> loop_counter s0 = 0
             \<and> length ins0 = Suc N * (sum_list (map occupancy body) + 1) + 2 * N \<longrightarrow>
             run_trace mem ins0 s0 = concat (replicate (Suc N) (body @ [mem L]))
             \<and> fetched mem (L + 1) (cycles mem ins0 s0))"
proof -
  have J: "J = unat (loop_jump (Decoder (mem L)))"
    by (simp add: J_def)
  have body': "\<forall>w \<in> set (loop_body mem L J).
                 op_code (Decoder w) \<noteq> word_of_int (op_value LOOP) \<and> \<not> stop (Decoder w)"
    using body by (simp add: body_def)
  have total: "fetched mem (L + 1) (cycles mem xs t)
       \<and> loop_counter (cycles mem xs t) = 0
       \<and> run_trace mem xs t = concat (replicate N (mem L # body)) @ [mem L]"
    if "fetched mem L t" "loop_counter t = 0"
      "length xs = N * (3 + sum_list (map occupancy body)) + 1" for t xs
  proof -
    have "unat (loop_count (Decoder (mem L))) = unat (loop_counter t) + N"
      using that(2) by (simp add: N_def)
    from loop_total [OF that(1) op this J j na body'] that(3)
    show ?thesis by (simp add: body_def)
  qed
  from f have s: "fsm s = RUN" "instruction s = mem L" "program_counter s = L + 2"
    by (simp_all add: fetched_def)
  have uj: "(ucast (loop_jump (Decoder (mem L))) :: 'a word) = of_nat J"
    by (simp add: J_def)
  have p1: "jump s \<and> next_addr s = program_counter s - ucast (loop_jump (Decoder (mem L))) - 2
             \<and> next_addr s = L - of_nat J" if "N \<noteq> 0"
  proof -
    from that c have ne: "loop_counter s \<noteq> loop_count (Decoder (mem L))"
      by (auto simp: N_def)
    have "length [(False, False), (False, False), (False, False)] = 3"
      by simp
    from loop_branch [where s = s and mem = mem and L = L, OF s op ne this]
    show ?thesis
      using s(3) by (simp add: uj)
  qed
  have p2: "\<not> jump s \<and> fetched mem (L + 1) (step mem st rd s)" if "N = 0"
  proof -
    from that c have eq: "loop_counter s = loop_count (Decoder (mem L))"
      by (simp add: N_def unat_0_iff)
    from loop_fall [OF f op eq na, of st rd] show ?thesis by simp
  qed
  have p3: "run_trace mem ins0 s0 = concat (replicate (Suc N) (body @ [mem L]))
             \<and> fetched mem (L + 1) (cycles mem ins0 s0)"
    if h: "fetched mem (L - of_nat J) s0 \<and> loop_counter s0 = 0
             \<and> length ins0 = Suc N * (sum_list (map occupancy body) + 1) + 2 * N" for s0 ins0
  proof -
    let ?m = "sum_list (map occupancy body)"
    let ?xs = "take ?m ins0" and ?ys = "drop ?m ins0"
    have l: "length ?xs = sum_list (map (\<lambda>i. occupancy (mem (L - of_nat J + of_nat i))) [0..<J])"
        "length ?ys = N * (3 + ?m) + 1"
      using h by (simp_all add: body_def loop_body_def comp_def algebra_simps)
    have b: "\<forall>i<J. op_code (Decoder (mem (L - of_nat J + of_nat i))) \<noteq> word_of_int (op_value LOOP)
              \<and> \<not> stop (Decoder (mem (L - of_nat J + of_nat i)))
              \<and> L - of_nat J + of_nat i \<noteq> - 1"
      using body' body_addr_ne [OF _ j] by (auto simp: loop_body_def)
    from h have f0: "fetched mem (L - of_nat J) s0" by simp
    from body_exec [OF f0 b l(1)]
    have ex: "fetched mem L (cycles mem ?xs s0)"
        "loop_counter (cycles mem ?xs s0) = 0"
        "run_trace mem ?xs s0 = body"
      using h by (simp_all add: body_def loop_body_def)
    from total [OF ex(1,2) l(2)]
    have t: "fetched mem (L + 1) (cycles mem ?ys (cycles mem ?xs s0))"
        "run_trace mem ?ys (cycles mem ?xs s0) = concat (replicate N (mem L # body)) @ [mem L]"
      by simp_all
    have ins: "ins0 = ?xs @ ?ys"
      by simp
    have "cycles mem ins0 s0 = cycles mem ?ys (cycles mem ?xs s0)"
      by (subst ins) (rule cycles_append)
    moreover have "run_trace mem ins0 s0
        = run_trace mem ?xs s0 @ run_trace mem ?ys (cycles mem ?xs s0)"
      by (subst ins) (rule run_trace_append)
    ultimately show ?thesis
      using t ex(3) concat_loop_shift [of body N "mem L"] by simp
  qed
  from total [OF f c len] p1 p2 p3 show ?thesis
    by blast
qed

theorem C4_loop_repeats_body_witness:
  "run_trace example_program
      [(False, False), (False, False), (False, False), (False, False), (False, False)]
      \<lparr>fsm = RUN, program_counter = 4, program_counter_old = 3, dat_r = 0,
       instruction = 32783, loop_counter = 0, idle_counter = 0, wants_dfi = True\<rparr>
     = [32783, 13, 32783]
   \<and> fetched example_program 3
       (cycles example_program
         [(False, False), (False, False), (False, False), (False, False), (False, False)]
         \<lparr>fsm = RUN, program_counter = 4, program_counter_old = 3, dat_r = 0,
          instruction = 32783, loop_counter = 0, idle_counter = 0, wants_dfi = True\<rparr>)"
proof -
  let ?s = "\<lparr>fsm = RUN, program_counter = 4 :: 4 word, program_counter_old = 3, dat_r = 0,
       instruction = 32783, loop_counter = 0, idle_counter = 0, wants_dfi = True\<rparr>"
  let ?ins = "[(False, False), (False, False), (False, False), (False, False), (False, False)]"
  have m: "example_program 2 = 32783" "example_program 1 = 13" "example_program 3 = 0"
    by (simp_all add: example_program_def)
  have b': "loop_body example_program 2 (Suc 0) = [13]"
    by (simp add: m loop_body_def)
  have op: "op_code (Decoder (example_program 2)) = word_of_int (op_value LOOP)"
    by (simp add: m example_decoded)
  have j: "unat (loop_jump (Decoder (example_program 2))) \<le> unat (2 :: 4 word)"
    by (simp add: m example_decoded)
  have na: "(2 :: 4 word) \<noteq> - 1"
    by simp
  have body: "\<forall>w \<in> set (loop_body example_program 2
                 (unat (loop_jump (Decoder (example_program 2))))).
                 op_code (Decoder w) \<noteq> word_of_int (op_value LOOP) \<and> \<not> stop (Decoder w)"
    by (simp add: b' m example_decoded)
  have f: "fetched example_program 2 ?s"
    by (simp add: fetched_def m)
  have c: "loop_counter ?s = 0"
    by simp
  have len: "length ?ins = unat (loop_count (Decoder (example_program 2)))
      * (3 + sum_list (map occupancy (loop_body example_program 2
                 (unat (loop_jump (Decoder (example_program 2))))))) + 1"
    by (simp add: b' m example_decoded occupancy_def)
  from C4_loop_repeats_body [OF op j na body f c len]
  show ?thesis
    by (simp add: b' m example_decoded del: run_trace.simps cycles.simps)
qed

text \<open>
  The claim as first stated has the \<open>J + 1\<close> preceding instructions repeated. In the
  example program the LOOP at address 2 has count 1 and jump 1; run from power-on, the
  ACT at address 0 is met once and only the PRE at address 1 is met twice.
\<close>

theorem C4_counterexample:
  "encode ACT \<lparr>kw_count = None, kw_jump = None, kw_timeslice = Some 1, kw_address = Some 0\<rparr>
     = Inr [12]
   \<and> encode PRE \<lparr>kw_count = None, kw_jump = None, kw_timeslice = Some 1, kw_address = Some 0\<rparr>
     = Inr [13]
   \<and> encode LOOP \<lparr>kw_count = Some 1, kw_jump = Some 1, kw_timeslice = None, kw_address = None\<rparr>
     = Inr [32783]
   \<and> map example_program [0, 1, 2, 3] = [12, 13, 32783, 0]
   \<and> run_trace example_program
        [(True, False), (False, True), (False, False), (False, False), (False, False),
         (False, False), (False, False), (False, False), (False, False), (False, False),
         (False, False), (False, False)] power_on
       = [12, 13, 32783, 13, 32783, 0]
   \<and> count_list [12, 13, 32783, 13, 32783, 0 :: 32 word] 12 = 1
   \<and> count_list [12, 13, 32783, 13, 32783, 0 :: 32 word] 12 \<noteq> 1 + 1"
  by (simp add: encode_def Instruction_init_def encode_spec_def width_defs
      example_program_def power_on_def step_def stall_def reset_pc_def mem_addr_def
      terminate_def jump_def jump_offset_def next_addr_def Let_def PIPELINE_DELAY_def
      example_decoded Decoder_def)

end
